theory Spec2Isabelle
  imports Complex_Main "HOL-Library.Sublist" "HOL-Library.Multiset"
begin

section \<open>Strings\<close>

text \<open>
  A string is a list of code units. The model covers the code units 0 to 255 (Latin-1),
  on which \<open>String.prototype.toLowerCase\<close> works unit by unit: A to Z and the accented
  capitals 192 to 222 (but not the multiplication sign 215) move up by 32.
  \<open>toLocaleLowerCase\<close> agrees with \<open>toLowerCase\<close> in every host locale but the Turkic
  and Lithuanian ones; the model takes such a host.
\<close>

definition isUpper :: "char \<Rightarrow> bool" where
  "isUpper c =
     (let n = (of_char c :: nat)
      in (65 \<le> n \<and> n \<le> 90) \<or> (192 \<le> n \<and> n \<le> 222 \<and> n \<noteq> 215))"

text \<open>Adding 32 to a capital sets the bit of weight 32, which is clear in every capital.\<close>

definition lowerChar :: "char \<Rightarrow> char" where
  "lowerChar c =
     (if isUpper c
      then (case c of Char b0 b1 b2 b3 b4 b5 b6 b7 \<Rightarrow> Char b0 b1 b2 b3 b4 True b6 b7)
      else c)"

definition toLowerCase :: "string \<Rightarrow> string" where
  "toLowerCase s = map lowerChar s"

definition toLocaleLowerCase :: "string \<Rightarrow> string" where
  "toLocaleLowerCase s = toLowerCase s"

text \<open>\<open>s.startsWith(t)\<close> and \<open>s.includes(t)\<close>: a search from every position of \<open>s\<close>.\<close>

fun startsWith :: "string \<Rightarrow> string \<Rightarrow> bool" where
  "startsWith s [] = True"
| "startsWith [] (c # t) = False"
| "startsWith (d # s) (c # t) = (d = c \<and> startsWith s t)"

fun includesStr :: "string \<Rightarrow> string \<Rightarrow> bool" where
  "includesStr [] t = (t = [])"
| "includesStr (d # s) t = (startsWith (d # s) t \<or> includesStr s t)"

text \<open>Decimal digits, as they print a year and as they spell an array index.\<close>

definition isDigit :: "char \<Rightarrow> bool" where
  "isDigit c = (48 \<le> (of_char c :: nat) \<and> (of_char c :: nat) \<le> 57)"

definition digitChar :: "nat \<Rightarrow> char" where
  "digitChar n = ''0123456789'' ! n"

definition digitVal :: "char \<Rightarrow> nat" where
  "digitVal c = of_char c - 48"

definition decimal :: "string \<Rightarrow> nat" where
  "decimal s = foldl (\<lambda>n c. 10 * n + digitVal c) 0 s"

function digits :: "nat \<Rightarrow> string" where
  "digits n = (if n < 10 then [digitChar n] else digits (n div 10) @ [digitChar (n mod 10)])"
  by pat_completeness auto
termination
  by (relation "measure (\<lambda>n. n)") auto

declare digits.simps [simp del]

section \<open>The data model\<close>

text \<open>
  An expense's \<open>date\<close> is a string that \<open>new Date\<close> parses. The model holds the calendar
  date the host reads in it (year, month, day), so a malformed date and the host's time
  zone are outside the model. \<open>amount\<close> is an exact real number: the rounding of IEEE
  doubles is not modelled. \<open>notes\<close> is \<open>None\<close> where the source has null or undefined.
  The fields \<open>user_id\<close> and \<open>created_at\<close> are never read by the derived views and are
  left out.
\<close>

datatype month =
  January | February | March | April | May | June
| July | August | September | October | November | December

record date =
  year :: nat
  month :: month
  day :: nat

record Expense =
  id' :: string
  title :: string
  amount :: real
  category :: string
  date :: date
  notes' :: "string option"

fun monthName :: "month \<Rightarrow> string" where
  "monthName January = ''January''"
| "monthName February = ''February''"
| "monthName March = ''March''"
| "monthName April = ''April''"
| "monthName May = ''May''"
| "monthName June = ''June''"
| "monthName July = ''July''"
| "monthName August = ''August''"
| "monthName September = ''September''"
| "monthName October = ''October''"
| "monthName November = ''November''"
| "monthName December = ''December''"

fun monthNum :: "month \<Rightarrow> nat" where
  "monthNum January = 1"
| "monthNum February = 2"
| "monthNum March = 3"
| "monthNum April = 4"
| "monthNum May = 5"
| "monthNum June = 6"
| "monthNum July = 7"
| "monthNum August = 8"
| "monthNum September = 9"
| "monthNum October = 10"
| "monthNum November = 11"
| "monthNum December = 12"

definition allMonths :: "month list" where
  "allMonths = [January, February, March, April, May, June,
                July, August, September, October, November, December]"

text \<open>
  \<open>new Date(exp.date).toLocaleDateString('en-US', {month: 'long', year: 'numeric'})\<close>:
  the long month name, a space, the year in decimal.
\<close>

definition monthLabel :: "date \<Rightarrow> string" where
  "monthLabel d = monthName (month d) @ '' '' @ digits (year d)"

text \<open>
  \<open>getTime\<close> is read by the comparators only through the sign of a difference. The model
  counts days in a calendar of 31-day months, which orders calendar dates as the time
  stamp does.
\<close>

definition monthIndex :: "nat \<Rightarrow> month \<Rightarrow> nat" where
  "monthIndex y m = 12 * y + monthNum m"

definition getTime :: "date \<Rightarrow> int" where
  "getTime d = int (31 * monthIndex (year d) (month d) + day d)"

text \<open>
  \<open>new Date(label)\<close> on a month label: the first day of that month. The model reads the
  labels with a four-digit year and gives \<open>None\<close> (an invalid date, whose time is NaN)
  to every other string.
\<close>

definition parseMonthLabel :: "string \<Rightarrow> date option" where
  "parseMonthLabel s =
     (let name = takeWhile (\<lambda>c. c \<noteq> CHR '' '') s;
          rest = drop (Suc (length name)) s
      in case map_of (map (\<lambda>m. (monthName m, m)) allMonths) name of
           None \<Rightarrow> None
         | Some m \<Rightarrow>
             if length s > length name \<and> length rest = 4 \<and> list_all isDigit rest
             then Some \<lparr>year = decimal rest, month = m, day = 1\<rparr>
             else None)"

definition labelTime :: "string \<Rightarrow> int option" where
  "labelTime s = map_option getTime (parseMonthLabel s)"

section \<open>Objects used as dictionaries\<close>

text \<open>
  The source keeps its groups in object literals \<open>{}\<close>. Such an object is modelled by
  the list of its own properties in the order of their creation. Three facts of the
  language are part of the model:
  \<^item> a read \<open>obj[k]\<close> of a key that is not an own property falls through to
    \<open>Object.prototype\<close>, where \<open>constructor\<close>, \<open>__proto__\<close> and ten more names are
    defined (\<open>Inherited\<close>: a function or an object, truthy, with no \<open>items\<close> and no
    \<open>push\<close>);
  \<^item> a write to an existing key keeps the key's place, a write to a new key appends;
  \<^item> \<open>Object.keys\<close>, \<open>Object.values\<close> and \<open>Object.entries\<close> list the keys that are
    array indices first, in ascending numeric order, and then the other keys in the
    order of their creation.
\<close>

type_synonym 'v jsobj = "(string \<times> 'v) list"

datatype 'v lookup = Own 'v | Inherited | Undefined

datatype error = TypeError

definition protoNames :: "string list" where
  "protoNames = [''constructor'', ''__defineGetter__'', ''__defineSetter__'',
     ''hasOwnProperty'', ''__lookupGetter__'', ''__lookupSetter__'', ''isPrototypeOf'',
     ''propertyIsEnumerable'', ''toString'', ''valueOf'', ''__proto__'', ''toLocaleString'']"

definition getProp :: "'v jsobj \<Rightarrow> string \<Rightarrow> 'v lookup" where
  "getProp obj k =
     (case map_of obj k of
        Some v \<Rightarrow> Own v
      | None \<Rightarrow> if k \<in> set protoNames then Inherited else Undefined)"

text \<open>Truthiness of a property that holds an object or an array when it is there.\<close>

fun truthy :: "'v lookup \<Rightarrow> bool" where
  "truthy (Own v) = True"
| "truthy Inherited = True"
| "truthy Undefined = False"

fun setProp :: "'v jsobj \<Rightarrow> string \<Rightarrow> 'v \<Rightarrow> 'v jsobj" where
  "setProp [] k v = [(k, v)]"
| "setProp ((k', v') # obj) k v =
     (if k' = k then (k, v) # obj else (k', v') # setProp obj k v)"

text \<open>
  An array index is the canonical decimal spelling of an integer below \<open>2^32 - 1\<close>:
  digits only, no leading zero but for \<open>0\<close> itself.
\<close>

definition arrayIndex :: "string \<Rightarrow> nat option" where
  "arrayIndex s =
     (if s \<noteq> [] \<and> list_all isDigit s \<and> (s = ''0'' \<or> take 1 s \<noteq> ''0'')
         \<and> int (decimal s) < 4294967295
      then Some (decimal s) else None)"

definition isIndex :: "string \<Rightarrow> bool" where
  "isIndex s = (arrayIndex s \<noteq> None)"

definition indexOf :: "string \<Rightarrow> nat" where
  "indexOf s = (case arrayIndex s of Some n \<Rightarrow> n | None \<Rightarrow> 0)"

definition objectEntries :: "'v jsobj \<Rightarrow> (string \<times> 'v) list" where
  "objectEntries obj =
     sort_key (\<lambda>p. indexOf (fst p)) (filter (\<lambda>p. isIndex (fst p)) obj)
     @ filter (\<lambda>p. \<not> isIndex (fst p)) obj"

definition objectKeys :: "'v jsobj \<Rightarrow> string list" where
  "objectKeys obj = map fst (objectEntries obj)"

definition objectValues :: "'v jsobj \<Rightarrow> 'v list" where
  "objectValues obj = map snd (objectEntries obj)"

text \<open>\<open>forEach\<close> with a callback that may throw: the first exception ends the loop.\<close>

fun forEachE :: "('s \<Rightarrow> 'a \<Rightarrow> error + 's) \<Rightarrow> 'a list \<Rightarrow> 's \<Rightarrow> error + 's" where
  "forEachE f [] s = Inr s"
| "forEachE f (x # xs) s =
     (case f s x of Inl err \<Rightarrow> Inl err | Inr s' \<Rightarrow> forEachE f xs s')"

section \<open>Sorting with a comparator\<close>

text \<open>
  \<open>Array.prototype.sort(compareFn)\<close> is stable; with a consistent comparator its
  result is the one stable arrangement, which insertion from the right computes. A
  comparator result that is not a number (NaN) counts as 0.
\<close>

fun insertBy :: "('a \<Rightarrow> 'a \<Rightarrow> int) \<Rightarrow> 'a \<Rightarrow> 'a list \<Rightarrow> 'a list" where
  "insertBy cmp x [] = [x]"
| "insertBy cmp x (y # ys) =
     (if cmp x y \<le> 0 then x # y # ys else y # insertBy cmp x ys)"

definition arraySort :: "('a \<Rightarrow> 'a \<Rightarrow> int) \<Rightarrow> 'a list \<Rightarrow> 'a list" where
  "arraySort cmp xs = foldr (insertBy cmp) xs []"

section \<open>The derived views of the dashboard\<close>

text \<open>\<open>filteredExpenses\<close> (the specification's \<open>filter\<close>).\<close>

definition filteredExpenses :: "Expense list \<Rightarrow> string \<Rightarrow> Expense list" where
  "filteredExpenses expenses searchTerm =
     filter (\<lambda>e.
       if searchTerm = [] then True
       else (let txt = toLowerCase searchTerm
             in includesStr (toLowerCase (title e)) txt
                \<or> includesStr (toLowerCase (category e)) txt
                \<or> (case notes' e of
                      None \<Rightarrow> False
                    | Some n \<Rightarrow> includesStr (toLowerCase n) txt)))
       expenses"

text \<open>The reducer \<open>(sum, exp) => sum + exp.amount\<close> from 0 (the specification's \<open>sum\<close>).\<close>

definition totalSpent :: "Expense list \<Rightarrow> real" where
  "totalSpent expenses = foldl (\<lambda>s e. s + amount e) 0 expenses"

definition categoryTotal :: "Expense list \<Rightarrow> real" where
  "categoryTotal es = foldl (\<lambda>s e. s + amount e) 0 es"

subsection \<open>Grouping by category\<close>

record catGroup =
  display :: string
  items :: "Expense list"

definition categoryStep :: "catGroup jsobj \<Rightarrow> Expense \<Rightarrow> error + catGroup jsobj" where
  "categoryStep obj e =
     (let normalized = toLowerCase (category e);
          obj1 = (if \<not> truthy (getProp obj normalized)
                  then setProp obj normalized \<lparr>display = category e, items = []\<rparr>
                  else obj)
      in case getProp obj1 normalized of
           Own g \<Rightarrow> Inr (setProp obj1 normalized (g\<lparr>items := items g @ [e]\<rparr>))
         | Inherited \<Rightarrow> Inl TypeError
         | Undefined \<Rightarrow> Inl TypeError)"

definition dateCmp :: "Expense \<Rightarrow> Expense \<Rightarrow> int" where
  "dateCmp a b = getTime (date b) - getTime (date a)"

definition expensesByCategory :: "Expense list \<Rightarrow> error + catGroup jsobj" where
  "expensesByCategory fe =
     (case forEachE categoryStep fe [] of
        Inl err \<Rightarrow> Inl err
      | Inr obj \<Rightarrow>
          Inr (map (\<lambda>(k, cat). (k, cat\<lparr>items := arraySort dateCmp (items cat)\<rparr>)) obj))"

text \<open>
  \<open>localeCompare\<close> is the host's collation, which the source does not define: it is a
  parameter of the model.
\<close>

definition displayCmp :: "(string \<Rightarrow> string \<Rightarrow> int) \<Rightarrow> catGroup \<Rightarrow> catGroup \<Rightarrow> int" where
  "displayCmp localeCompare a b =
     localeCompare (toLocaleLowerCase (display a)) (toLocaleLowerCase (display b))"

definition sortedCategories ::
  "(string \<Rightarrow> string \<Rightarrow> int) \<Rightarrow> Expense list \<Rightarrow> error + catGroup list" where
  "sortedCategories localeCompare fe =
     (case expensesByCategory fe of
        Inl err \<Rightarrow> Inl err
      | Inr obj \<Rightarrow> Inr (arraySort (displayCmp localeCompare) (objectValues obj)))"

subsection \<open>Grouping by month, then by category\<close>

text \<open>
  A month label holds a space, so it never names an inherited property: the objects
  keyed by month are read through their own properties. The callback first finds or
  creates the month's object (\<open>monthStep\<close>) and then pushes the expense into its
  category cell (\<open>cellStep\<close>); the month holds a reference to the object that the
  push changes.
\<close>

definition cellStep :: "Expense list jsobj \<Rightarrow> Expense \<Rightarrow> error + Expense list jsobj" where
  "cellStep inner e =
     (let categoryKey = toLocaleLowerCase (category e);
          inner1 = (if \<not> truthy (getProp inner categoryKey)
                    then setProp inner categoryKey [] else inner)
      in case getProp inner1 categoryKey of
           Own es \<Rightarrow> Inr (setProp inner1 categoryKey (es @ [e]))
         | Inherited \<Rightarrow> Inl TypeError
         | Undefined \<Rightarrow> Inl TypeError)"

definition monthStep ::
  "(Expense list jsobj) jsobj \<Rightarrow> Expense \<Rightarrow> error + (Expense list jsobj) jsobj" where
  "monthStep obj e =
     (let ml = monthLabel (date e);
          obj1 = (if map_of obj ml = None then setProp obj ml [] else obj);
          inner = (case map_of obj1 ml of Some c \<Rightarrow> c | None \<Rightarrow> [])
      in case cellStep inner e of
           Inl err \<Rightarrow> Inl err
         | Inr inner' \<Rightarrow> Inr (setProp obj1 ml inner'))"

definition expensesByMonth :: "Expense list \<Rightarrow> error + (Expense list jsobj) jsobj" where
  "expensesByMonth fe = forEachE monthStep fe []"

definition labelCmp :: "string \<Rightarrow> string \<Rightarrow> int" where
  "labelCmp a b =
     (case (labelTime b, labelTime a) of
        (Some tb, Some ta) \<Rightarrow> tb - ta
      | _ \<Rightarrow> 0)"

record monthGroup =
  label :: string
  categories :: "Expense list jsobj"

definition sortedMonths :: "Expense list \<Rightarrow> error + monthGroup list" where
  "sortedMonths fe =
     (case expensesByMonth fe of
        Inl err \<Rightarrow> Inl err
      | Inr obj \<Rightarrow>
          Inr (map (\<lambda>l. \<lparr>label = l,
                         categories = (case map_of obj l of Some c \<Rightarrow> c | None \<Rightarrow> [])\<rparr>)
                 (arraySort labelCmp (objectKeys obj))))"

text \<open>What the page shows for a month: its total and, when opened, its category cells.\<close>

definition monthItems :: "monthGroup \<Rightarrow> Expense list" where
  "monthItems m = concat (objectValues (categories m))"

definition monthTotal :: "monthGroup \<Rightarrow> real" where
  "monthTotal m = foldl (\<lambda>s e. s + amount e) 0 (monthItems m)"

definition monthCells :: "monthGroup \<Rightarrow> (string \<times> Expense list) list" where
  "monthCells m = objectEntries (categories m)"

subsection \<open>The chart series\<close>

definition totalsStep :: "real jsobj \<Rightarrow> Expense \<Rightarrow> real jsobj" where
  "totalsStep obj e =
     (let ml = monthLabel (date e);
          obj1 = (case map_of obj ml of
                    None \<Rightarrow> setProp obj ml 0
                  | Some v \<Rightarrow> if v = 0 then setProp obj ml 0 else obj)
      in case map_of obj1 ml of
           Some v \<Rightarrow> setProp obj1 ml (v + amount e)
         | None \<Rightarrow> obj1)"

definition monthlyTotals :: "Expense list \<Rightarrow> real jsobj" where
  "monthlyTotals expenses = foldl totalsStep [] expenses"

definition monthLabels :: "Expense list \<Rightarrow> string list" where
  "monthLabels expenses = objectKeys (monthlyTotals expenses)"

definition monthValues :: "Expense list \<Rightarrow> real list" where
  "monthValues expenses = objectValues (monthlyTotals expenses)"

subsection \<open>One render of the page\<close>

text \<open>
  The component body computes every view from its state \<open>expenses\<close> and \<open>searchTerm\<close>;
  an exception in one of them ends the render.
\<close>

record page =
  pageTotal :: real
  pageCategories :: "catGroup list"
  pageMonths :: "monthGroup list"
  chartLabels :: "string list"
  chartValues :: "real list"

definition DashboardPage ::
  "(string \<Rightarrow> string \<Rightarrow> int) \<Rightarrow> Expense list \<Rightarrow> string \<Rightarrow> error + page" where
  "DashboardPage localeCompare expenses searchTerm =
     (let fe = filteredExpenses expenses searchTerm
      in case sortedCategories localeCompare fe of
           Inl err \<Rightarrow> Inl err
         | Inr cats \<Rightarrow>
             (case sortedMonths fe of
                Inl err \<Rightarrow> Inl err
              | Inr months \<Rightarrow>
                  Inr \<lparr>pageTotal = totalSpent expenses,
                       pageCategories = cats,
                       pageMonths = months,
                       chartLabels = monthLabels expenses,
                       chartValues = monthValues expenses\<rparr>))"

section \<open>Grouping, as the specification words it\<close>

text \<open>
  The keys of a list in the order of their first occurrence, and the groups of a list
  under a key function: one group per key, in first-seen order, each holding its
  elements in their input order.
\<close>

fun firstSeen :: "'k list \<Rightarrow> 'k list" where
  "firstSeen [] = []"
| "firstSeen (k # ks) = k # filter (\<lambda>k'. k' \<noteq> k) (firstSeen ks)"

definition groupsOf :: "('a \<Rightarrow> 'k) \<Rightarrow> 'a list \<Rightarrow> ('k \<times> 'a list) list" where
  "groupsOf key xs = map (\<lambda>k. (k, filter (\<lambda>x. key x = k) xs)) (firstSeen (map key xs))"

text \<open>The order in which an object lists keys that were created in the order \<open>ks\<close>.\<close>

definition keyOrder :: "string list \<Rightarrow> string list" where
  "keyOrder ks = sort_key indexOf (filter isIndex ks) @ filter (\<lambda>k. \<not> isIndex k) ks"

text \<open>The grouping keys: the lower-cased category and the month label.\<close>

definition categoryKeyOf :: "Expense \<Rightarrow> string" where
  "categoryKeyOf e = toLowerCase (category e)"

definition monthKeyOf :: "Expense \<Rightarrow> string" where
  "monthKeyOf e = monthLabel (date e)"

text \<open>
  A sample collation, to run the model on concrete inputs: the comparison of two strings
  code unit by code unit.
\<close>

fun codeUnitCompare :: "string \<Rightarrow> string \<Rightarrow> int" where
  "codeUnitCompare [] [] = 0"
| "codeUnitCompare [] (c # t) = - 1"
| "codeUnitCompare (d # s) [] = 1"
| "codeUnitCompare (d # s) (c # t) =
     (if (of_char d :: nat) < of_char c then - 1
      else if (of_char c :: nat) < of_char d then 1
      else codeUnitCompare s t)"

text \<open>\<open>laterMonth d d'\<close>: the month of \<open>d\<close> comes after the month of \<open>d'\<close> in the calendar.\<close>

definition laterMonth :: "date \<Rightarrow> date \<Rightarrow> bool" where
  "laterMonth d d' =
     (year d' < year d \<or> (year d' = year d \<and> monthNum (month d') < monthNum (month d)))"

section \<open>Sample inputs\<close>

text \<open>
  Three expenses of March and April 2024, in two categories of which one is written in
  two cases; two expenses of one day and one category; and an expense whose category is
  a number.
\<close>

definition coffee :: Expense where
  "coffee = \<lparr>id' = ''1'', title = ''Coffee'', amount = 4.5, category = ''Food'',
             date = \<lparr>year = 2024, month = March, day = 1\<rparr>, notes' = None\<rparr>"

definition bus :: Expense where
  "bus = \<lparr>id' = ''2'', title = ''Bus'', amount = 2.75, category = ''Transport'',
          date = \<lparr>year = 2024, month = March, day = 15\<rparr>, notes' = None\<rparr>"

definition lunch :: Expense where
  "lunch = \<lparr>id' = ''3'', title = ''Lunch'', amount = 12, category = ''food'',
            date = \<lparr>year = 2024, month = April, day = 2\<rparr>, notes' = Some ''with Bob''\<rparr>"

definition tea :: Expense where
  "tea = \<lparr>id' = ''4'', title = ''Tea'', amount = 3, category = ''Food'',
          date = \<lparr>year = 2024, month = March, day = 1\<rparr>, notes' = None\<rparr>"

definition ticket :: Expense where
  "ticket = \<lparr>id' = ''5'', title = ''Ticket'', amount = 9, category = ''7'',
             date = \<lparr>year = 2024, month = March, day = 20\<rparr>, notes' = None\<rparr>"

definition scenarioA :: "Expense list" where
  "scenarioA = [coffee, bus, lunch]"

section \<open>Strings and month labels: basic facts\<close>

lemma startsWith_iff_prefix: "startsWith s t \<longleftrightarrow> prefix t s"
  by (induction s t rule: startsWith.induct) auto

lemma includesStr_iff_sublist: "includesStr s t \<longleftrightarrow> sublist t s"
  by (induction s) (auto simp: sublist_Cons_right startsWith_iff_prefix)

lemma digitChar_code: "k < 10 \<Longrightarrow> (of_char (digitChar k) :: nat) = 48 + k"
proof -
  assume "k < 10"
  then have "k \<in> set [0..<10]" by simp
  then show ?thesis
    by (auto simp: upt_rec digitChar_def)
qed

lemma isDigit_digitChar: "k < 10 \<Longrightarrow> isDigit (digitChar k)"
  by (simp add: isDigit_def digitChar_code)

lemma digitVal_digitChar: "k < 10 \<Longrightarrow> digitVal (digitChar k) = k"
  by (simp add: digitVal_def digitChar_code)

lemma digits_all_digit: "list_all isDigit (digits n)"
proof (induction n rule: digits.induct)
  case (1 n)
  show ?case
  proof (cases "n < 10")
    case True
    then show ?thesis by (subst digits.simps) (simp add: isDigit_digitChar)
  next
    case False
    with 1 show ?thesis by (subst digits.simps) (simp add: isDigit_digitChar)
  qed
qed

lemma decimal_snoc: "decimal (s @ [c]) = 10 * decimal s + digitVal c"
  by (simp add: decimal_def)

lemma decimal_digits: "decimal (digits n) = n"
proof (induction n rule: digits.induct)
  case (1 n)
  show ?case
  proof (cases "n < 10")
    case True
    then show ?thesis by (subst digits.simps) (simp add: decimal_def digitVal_digitChar)
  next
    case False
    with 1 show ?thesis
      by (subst digits.simps) (simp add: decimal_snoc digitVal_digitChar)
  qed
qed

lemma digits_inj: "digits a = digits b \<Longrightarrow> a = b"
  by (metis decimal_digits)

lemma length_digits_small: "n < 10 \<Longrightarrow> length (digits n) = 1"
  by (subst digits.simps) simp

lemma length_digits_step: "10 \<le> n \<Longrightarrow> length (digits n) = Suc (length (digits (n div 10)))"
  by (subst digits.simps) simp

lemma length_digits_four: "1000 \<le> n \<Longrightarrow> n \<le> 9999 \<Longrightarrow> length (digits n) = 4"
proof -
  assume a: "1000 \<le> n" "n \<le> 9999"
  have 1: "10 \<le> n" "10 \<le> n div 10" "10 \<le> n div 10 div 10" "n div 10 div 10 div 10 < 10"
    using a by auto
  show ?thesis
    by (simp add: length_digits_step 1 length_digits_small)
qed

lemma isDigit_not_space: "isDigit c \<Longrightarrow> c \<noteq> CHR '' ''"
  by (auto simp: isDigit_def)

lemma space_notin_digits: "CHR '' '' \<notin> set (digits n)"
  using digits_all_digit[of n] isDigit_not_space by (auto simp: list_all_iff)

lemma space_notin_monthName: "CHR '' '' \<notin> set (monthName m)"
  by (cases m) simp_all

lemma monthName_inj: "monthName a = monthName b \<Longrightarrow> a = b"
  by (cases a; cases b) simp_all

lemma map_of_monthTable: "map_of (map (\<lambda>m. (monthName m, m)) allMonths) (monthName m) = Some m"
  by (cases m) (simp_all add: allMonths_def)

lemma takeWhile_monthLabel: "takeWhile (\<lambda>c. c \<noteq> CHR '' '') (monthLabel d) = monthName (month d)"
  unfolding monthLabel_def using space_notin_monthName[of "month d"]
  by (subst takeWhile_append2) auto

lemma monthLabel_inj: "monthLabel a = monthLabel b \<longleftrightarrow> month a = month b \<and> year a = year b"
proof
  assume e: "monthLabel a = monthLabel b"
  then have "monthName (month a) = monthName (month b)"
    by (metis takeWhile_monthLabel)
  then have m: "month a = month b" by (rule monthName_inj)
  with e have "digits (year a) = digits (year b)" by (simp add: monthLabel_def)
  then show "month a = month b \<and> year a = year b" using m digits_inj by blast
next
  assume "month a = month b \<and> year a = year b"
  then show "monthLabel a = monthLabel b" by (simp add: monthLabel_def)
qed

lemma parseMonthLabel_monthLabel:
  "1000 \<le> year d \<Longrightarrow> year d \<le> 9999 \<Longrightarrow>
   parseMonthLabel (monthLabel d) = Some \<lparr>year = year d, month = month d, day = 1\<rparr>"
  unfolding parseMonthLabel_def takeWhile_monthLabel
  by (simp add: map_of_monthTable Let_def)
     (simp add: monthLabel_def length_digits_four digits_all_digit decimal_digits)

lemma labelTime_monthLabel:
  "1000 \<le> year d \<Longrightarrow> year d \<le> 9999 \<Longrightarrow>
   labelTime (monthLabel d) = Some (int (31 * monthIndex (year d) (month d) + 1))"
  by (simp add: labelTime_def parseMonthLabel_monthLabel getTime_def)

lemma space_in_monthLabel: "CHR '' '' \<in> set (monthLabel d)"
  by (simp add: monthLabel_def)

lemma monthLabel_not_inherited: "monthLabel d \<notin> set protoNames"
proof
  assume "monthLabel d \<in> set protoNames"
  moreover have "\<forall>p \<in> set protoNames. CHR '' '' \<notin> set p" by (simp add: protoNames_def)
  ultimately show False using space_in_monthLabel by blast
qed

lemma monthLabel_not_index: "\<not> isIndex (monthLabel d)"
proof
  assume "isIndex (monthLabel d)"
  then have "list_all isDigit (monthLabel d)"
    by (simp add: isIndex_def arrayIndex_def split: if_splits)
  then show False using space_in_monthLabel[of d] isDigit_not_space by (auto simp: list_all_iff)
qed

lemma monthNum_bounds: "1 \<le> monthNum m \<and> monthNum m \<le> 12"
  by (cases m) simp_all

lemma monthNum_inj: "monthNum a = monthNum b \<Longrightarrow> a = b"
  by (cases a; cases b) simp_all

lemma monthIndex_le_iff:
  "monthIndex y1 m1 \<le> monthIndex y2 m2 \<longleftrightarrow> y1 < y2 \<or> (y1 = y2 \<and> monthNum m1 \<le> monthNum m2)"
  using monthNum_bounds[of m1] monthNum_bounds[of m2] by (auto simp: monthIndex_def)

section \<open>Lists, objects and sorting: basic facts\<close>

lemma set_firstSeen: "set (firstSeen ks) = set ks"
  by (induction ks) auto

lemma distinct_firstSeen: "distinct (firstSeen ks)"
  by (induction ks) (auto simp: set_firstSeen)

lemma firstSeen_snoc:
  "firstSeen (ks @ [k]) = (if k \<in> set ks then firstSeen ks else firstSeen ks @ [k])"
  by (induction ks) auto

lemma firstSeen_distinct: "distinct ks \<Longrightarrow> firstSeen ks = ks"
  by (induction ks) (auto simp: set_firstSeen filter_id_conv)

lemma map_of_tabulate:
  "map_of (map (\<lambda>k. (k, f k)) ks) k = (if k \<in> set ks then Some (f k) else None)"
  by (induction ks) auto

lemma map_fst_groupsOf: "map fst (groupsOf key xs) = firstSeen (map key xs)"
  by (simp add: groupsOf_def comp_def)

lemma distinct_keys_groupsOf: "distinct (map fst (groupsOf key xs))"
  by (simp add: map_fst_groupsOf distinct_firstSeen)

lemma map_of_groupsOf:
  "map_of (groupsOf key xs) k =
     (if k \<in> key ` set xs then Some (filter (\<lambda>x. key x = k) xs) else None)"
  by (simp add: groupsOf_def map_of_tabulate set_firstSeen)

lemma groupsOf_Nil: "groupsOf key [] = []"
  by (simp add: groupsOf_def)

lemma groupsOf_snoc:
  "groupsOf key (xs @ [x]) =
     (if key x \<in> key ` set xs
      then map (\<lambda>p. if fst p = key x then (fst p, snd p @ [x]) else p) (groupsOf key xs)
      else groupsOf key xs @ [(key x, [x])])"
proof (cases "key x \<in> key ` set xs")
  case True
  then show ?thesis
    by (auto simp: groupsOf_def firstSeen_snoc)
next
  case False
  then have ne: "\<forall>y \<in> set xs. key y \<noteq> key x"
    by (metis imageI)
  then have "filter (\<lambda>y. key y = key x) xs = []"
    by (simp add: filter_empty_conv)
  moreover have "\<forall>k \<in> set (firstSeen (map key xs)). key x \<noteq> k"
    unfolding set_firstSeen using ne by (metis imageE list.set_map)
  ultimately show ?thesis using False
    by (simp add: groupsOf_def firstSeen_snoc)
qed

lemma groupsOf_member:
  "(k, es) \<in> set (groupsOf key xs) \<longleftrightarrow> k \<in> key ` set xs \<and> es = filter (\<lambda>x. key x = k) xs"
  by (auto simp: groupsOf_def set_firstSeen)

lemma mset_concat_filters:
  "distinct ks \<Longrightarrow> key ` set xs \<subseteq> set ks \<Longrightarrow>
   mset (concat (map (\<lambda>k. filter (\<lambda>x. key x = k) xs) ks)) = mset xs"
proof (induction ks arbitrary: xs)
  case Nil
  then show ?case by simp
next
  case (Cons k ks)
  let ?rest = "filter (\<lambda>x. key x \<noteq> k) xs"
  have same: "map (\<lambda>k'. filter (\<lambda>x. key x = k') xs) ks
            = map (\<lambda>k'. filter (\<lambda>x. key x = k') ?rest) ks"
  proof (rule map_cong[OF refl])
    fix k' assume "k' \<in> set ks"
    with Cons.prems(1) have "k' \<noteq> k" by auto
    then show "filter (\<lambda>x. key x = k') xs = filter (\<lambda>x. key x = k') ?rest"
      by (auto intro: filter_cong)
  qed
  have sub: "key ` set ?rest \<subseteq> set ks" using Cons.prems(2) by auto
  have "mset (concat (map (\<lambda>k'. filter (\<lambda>x. key x = k') ?rest) ks)) = mset ?rest"
    using Cons.IH[OF _ sub] Cons.prems(1) by simp
  then show ?case
    by (simp add: same)
qed

lemma mset_concat_groupsOf: "mset (concat (map snd (groupsOf key xs))) = mset xs"
  using mset_concat_filters[of "firstSeen (map key xs)" key xs]
  by (simp add: groupsOf_def comp_def distinct_firstSeen set_firstSeen)

lemma setProp_new: "k \<notin> fst ` set obj \<Longrightarrow> setProp obj k v = obj @ [(k, v)]"
  by (induction obj) auto

lemma setProp_old:
  "distinct (map fst obj) \<Longrightarrow> k \<in> fst ` set obj \<Longrightarrow>
   setProp obj k v = map (\<lambda>p. if fst p = k then (k, v) else p) obj"
proof (induction obj)
  case Nil
  then show ?case by simp
next
  case (Cons p obj)
  show ?case
  proof (cases "fst p = k")
    case True
    with Cons.prems(1) have "k \<notin> fst ` set obj" by simp
    then have "\<forall>q \<in> set obj. fst q \<noteq> k" by (metis imageI)
    then have "map (\<lambda>p. if fst p = k then (k, v) else p) obj = obj"
      by (induction obj) auto
    with True show ?thesis by (cases p) simp
  next
    case False
    with Cons.prems have "distinct (map fst obj)" "k \<in> fst ` set obj" by auto
    with Cons.IH False show ?thesis by (cases p) simp
  qed
qed

lemma map_of_setProp: "map_of (setProp obj k v) = (map_of obj)(k \<mapsto> v)"
  by (induction obj) (auto simp: fun_eq_iff)

lemma map_fst_setProp:
  "map fst (setProp obj k v) = (if k \<in> set (map fst obj) then map fst obj else map fst obj @ [k])"
  by (induction obj) (force simp: image_iff)+

lemma keys_setProp: "fst ` set (setProp obj k v) = insert k (fst ` set obj)"
proof -
  have "set (map fst (setProp obj k v)) = insert k (set (map fst obj))"
    by (simp add: map_fst_setProp insert_absorb del: set_map)
  then show ?thesis by simp
qed

lemma forEachE_snoc:
  "forEachE f (xs @ [x]) s =
     (case forEachE f xs s of Inl err \<Rightarrow> Inl err | Inr s' \<Rightarrow> f s' x)"
  by (induction xs arbitrary: s) (auto split: sum.splits)

lemma mset_insertBy: "mset (insertBy cmp x ys) = add_mset x (mset ys)"
  by (induction ys) auto

lemma mset_arraySort: "mset (arraySort cmp xs) = mset xs"
  by (induction xs) (auto simp: arraySort_def mset_insertBy)

lemma set_arraySort: "set (arraySort cmp xs) = set xs"
  by (metis mset_arraySort set_mset_mset)

lemma length_arraySort: "length (arraySort cmp xs) = length xs"
  by (metis mset_arraySort size_mset)

lemma set_insertBy: "set (insertBy cmp x ys) = insert x (set ys)"
  by (induction ys) auto

lemma sorted_insertBy:
  "sorted_wrt (\<lambda>a b. cmp a b \<le> 0) ys \<Longrightarrow>
   \<forall>a \<in> insert x (set ys). \<forall>b \<in> insert x (set ys). cmp a b \<le> 0 \<or> cmp b a \<le> 0 \<Longrightarrow>
   \<forall>a \<in> insert x (set ys). \<forall>b \<in> insert x (set ys). \<forall>c \<in> insert x (set ys).
      cmp a b \<le> 0 \<longrightarrow> cmp b c \<le> 0 \<longrightarrow> cmp a c \<le> 0 \<Longrightarrow>
   sorted_wrt (\<lambda>a b. cmp a b \<le> 0) (insertBy cmp x ys)"
proof (induction ys)
  case Nil
  show ?case by simp
next
  case (Cons y ys)
  from Cons.prems(1) have sy: "\<forall>z \<in> set ys. cmp y z \<le> 0"
    and sys: "sorted_wrt (\<lambda>a b. cmp a b \<le> 0) ys" by simp_all
  show ?case
  proof (cases "cmp x y \<le> 0")
    case True
    have "\<forall>z \<in> set ys. cmp x z \<le> 0"
    proof
      fix z assume z: "z \<in> set ys"
      with sy have "cmp y z \<le> 0" by blast
      with True z show "cmp x z \<le> 0"
        using Cons.prems(3)[rule_format, of x y z] by simp
    qed
    with True sy sys show ?thesis by simp
  next
    case False
    have "cmp x y \<le> 0 \<or> cmp y x \<le> 0"
      using Cons.prems(2)[rule_format, of x y] by simp
    with False have yx: "cmp y x \<le> 0" by simp
    have sub: "insert x (set ys) \<subseteq> insert x (set (y # ys))" by auto
    have tot: "\<forall>a \<in> insert x (set ys). \<forall>b \<in> insert x (set ys). cmp a b \<le> 0 \<or> cmp b a \<le> 0"
      using Cons.prems(2) sub by blast
    have tr: "\<forall>a \<in> insert x (set ys). \<forall>b \<in> insert x (set ys). \<forall>c \<in> insert x (set ys).
        cmp a b \<le> 0 \<longrightarrow> cmp b c \<le> 0 \<longrightarrow> cmp a c \<le> 0"
    proof (intro ballI impI)
      fix a b c
      assume "a \<in> insert x (set ys)" "b \<in> insert x (set ys)" "c \<in> insert x (set ys)"
        and le: "cmp a b \<le> 0" "cmp b c \<le> 0"
      with sub have "a \<in> insert x (set (y # ys))" "b \<in> insert x (set (y # ys))"
        "c \<in> insert x (set (y # ys))" by blast+
      with le show "cmp a c \<le> 0" using Cons.prems(3)[rule_format, of a b c] by blast
    qed
    have "sorted_wrt (\<lambda>a b. cmp a b \<le> 0) (insertBy cmp x ys)"
      by (rule Cons.IH[OF sys tot tr])
    with False yx sy show ?thesis by (simp add: set_insertBy)
  qed
qed

lemma sorted_arraySort:
  "\<forall>a \<in> set xs. \<forall>b \<in> set xs. cmp a b \<le> 0 \<or> cmp b a \<le> 0 \<Longrightarrow>
   \<forall>a \<in> set xs. \<forall>b \<in> set xs. \<forall>c \<in> set xs. cmp a b \<le> 0 \<longrightarrow> cmp b c \<le> 0 \<longrightarrow> cmp a c \<le> 0 \<Longrightarrow>
   sorted_wrt (\<lambda>a b. cmp a b \<le> 0) (arraySort cmp xs)"
proof (induction xs)
  case Nil
  show ?case by (simp add: arraySort_def)
next
  case (Cons x xs)
  have tot: "\<forall>a \<in> set xs. \<forall>b \<in> set xs. cmp a b \<le> 0 \<or> cmp b a \<le> 0"
    using Cons.prems(1) by simp
  have tr: "\<forall>a \<in> set xs. \<forall>b \<in> set xs. \<forall>c \<in> set xs. cmp a b \<le> 0 \<longrightarrow> cmp b c \<le> 0 \<longrightarrow> cmp a c \<le> 0"
  proof (intro ballI impI)
    fix a b c assume "a \<in> set xs" "b \<in> set xs" "c \<in> set xs" "cmp a b \<le> 0" "cmp b c \<le> 0"
    then show "cmp a c \<le> 0" using Cons.prems(2)[rule_format, of a b c] by simp
  qed
  have IH: "sorted_wrt (\<lambda>a b. cmp a b \<le> 0) (arraySort cmp xs)"
    by (rule Cons.IH[OF tot tr])
  have "sorted_wrt (\<lambda>a b. cmp a b \<le> 0) (insertBy cmp x (arraySort cmp xs))"
    using Cons.prems by (intro sorted_insertBy[OF IH]) (simp_all only: set_arraySort list.set)
  then show ?case by (simp add: arraySort_def)
qed

lemma filter_insertBy_in:
  "P x \<Longrightarrow> (\<And>y. y \<in> set ys \<Longrightarrow> P y \<Longrightarrow> cmp x y \<le> 0) \<Longrightarrow>
   filter P (insertBy cmp x ys) = x # filter P ys"
  by (induction ys) auto

lemma filter_insertBy_out: "\<not> P x \<Longrightarrow> filter P (insertBy cmp x ys) = filter P ys"
  by (induction ys) auto

lemma filter_arraySort_stable:
  "(\<And>x y. x \<in> set xs \<Longrightarrow> y \<in> set xs \<Longrightarrow> P x \<Longrightarrow> P y \<Longrightarrow> cmp x y \<le> 0) \<Longrightarrow>
   filter P (arraySort cmp xs) = filter P xs"
proof (induction xs)
  case Nil
  then show ?case by (simp add: arraySort_def)
next
  case (Cons x xs)
  have IH: "filter P (arraySort cmp xs) = filter P xs"
    using Cons by simp
  show ?case
  proof (cases "P x")
    case True
    have "filter P (insertBy cmp x (arraySort cmp xs)) = x # filter P (arraySort cmp xs)"
      using True Cons.prems by (intro filter_insertBy_in) (auto simp: set_arraySort)
    with True IH show ?thesis by (simp add: arraySort_def)
  next
    case False
    with IH show ?thesis by (simp add: arraySort_def filter_insertBy_out)
  qed
qed

lemma mset_objectEntries: "mset (objectEntries obj) = mset obj"
  by (simp add: objectEntries_def)

lemma set_objectEntries: "set (objectEntries obj) = set obj"
  by (auto simp: objectEntries_def)

lemma objectEntries_no_index:
  "(\<And>p. p \<in> set obj \<Longrightarrow> \<not> isIndex (fst p)) \<Longrightarrow> objectEntries obj = obj"
  by (simp add: objectEntries_def filter_empty_conv filter_id_conv)

lemma map_insort_key:
  "map g (insort_key (\<lambda>x. f (g x)) x xs) = insort_key f (g x) (map g xs)"
  by (induction xs) auto

lemma map_sort_key: "map g (sort_key (\<lambda>x. f (g x)) xs) = sort_key f (map g xs)"
  by (induction xs) (auto simp: map_insort_key)

lemma objectKeys_keyOrder: "objectKeys obj = keyOrder (map fst obj)"
  by (simp add: objectKeys_def objectEntries_def keyOrder_def map_sort_key filter_map comp_def)

lemma keyOrder_no_index: "(\<And>k. k \<in> set ks \<Longrightarrow> \<not> isIndex k) \<Longrightarrow> keyOrder ks = ks"
  by (simp add: keyOrder_def filter_empty_conv filter_id_conv)

lemma mset_keyOrder: "mset (keyOrder ks) = mset ks"
  by (simp add: keyOrder_def)

lemma foldl_amount: "foldl (\<lambda>s e. s + amount e) a es = a + sum_list (map amount es)"
  by (induction es arbitrary: a) auto

lemma sum_list_mset_cong: "mset xs = mset ys \<Longrightarrow> sum_list (map f xs) = (sum_list (map f ys) :: real)"
  by (metis mset_map sum_mset_sum_list)

section \<open>The grouping loops compute the groups\<close>

lemma groupsOf_single: "groupsOf key [x] = [(key x, [x])]"
  by (simp add: groupsOf_def)

lemma setProp_twice: "setProp (setProp obj k v) k w = setProp obj k w"
  by (induction obj) auto

lemma setProp_same: "map_of obj k = Some v \<Longrightarrow> setProp obj k v = obj"
  by (induction obj) (auto split: if_splits)

lemma getProp_setProp: "getProp (setProp obj k v) k = Own v"
  by (simp add: getProp_def map_of_setProp)

lemma map_of_Some_key: "map_of obj k = Some v \<Longrightarrow> k \<in> fst ` set obj"
  by (metis map_of_eq_None_iff option.distinct(1))

lemma map_of_None_key: "map_of obj k = None \<longleftrightarrow> k \<notin> fst ` set obj"
  by (simp add: map_of_eq_None_iff)

text \<open>Appending to the group of \<open>x\<close> in an object that holds the groups of \<open>xs\<close>.\<close>

lemma setProp_groupsOf:
  "setProp (groupsOf key xs) (key x) (filter (\<lambda>y. key y = key x) xs @ [x]) = groupsOf key (xs @ [x])"
proof (cases "key x \<in> key ` set xs")
  case True
  then have "key x \<in> fst ` set (groupsOf key xs)"
    by (metis list.set_map map_fst_groupsOf set_firstSeen)
  then have "setProp (groupsOf key xs) (key x) (filter (\<lambda>y. key y = key x) xs @ [x])
      = map (\<lambda>p. if fst p = key x then (key x, filter (\<lambda>y. key y = key x) xs @ [x]) else p) (groupsOf key xs)"
    by (simp add: setProp_old distinct_keys_groupsOf)
  also have "\<dots> = map (\<lambda>p. if fst p = key x then (fst p, snd p @ [x]) else p) (groupsOf key xs)"
  proof (rule map_cong[OF refl])
    fix p assume a: "p \<in> set (groupsOf key xs)"
    have "snd p = filter (\<lambda>y. key y = fst p) xs"
      using a groupsOf_member[of "fst p" "snd p" key xs] by simp
    then show "(if fst p = key x then (key x, filter (\<lambda>y. key y = key x) xs @ [x]) else p)
             = (if fst p = key x then (fst p, snd p @ [x]) else p)"
      by simp
  qed
  finally show ?thesis using True by (simp add: groupsOf_snoc)
next
  case False
  then have "key x \<notin> fst ` set (groupsOf key xs)"
    by (metis list.set_map map_fst_groupsOf set_firstSeen)
  moreover have "filter (\<lambda>y. key y = key x) xs = []"
    using False by (metis (mono_tags, lifting) filter_False imageI)
  ultimately show ?thesis using False
    by (simp add: setProp_new groupsOf_snoc)
qed

lemma getProp_groupsOf:
  "k \<notin> set protoNames \<Longrightarrow>
   getProp (groupsOf key xs) k =
     (if k \<in> key ` set xs then Own (filter (\<lambda>y. key y = k) xs) else Undefined)"
  by (simp add: getProp_def map_of_groupsOf)

text \<open>The loop of \<open>expensesByCategory\<close>.\<close>

lemma map_of_map_value:
  "map_of (map (\<lambda>p. (fst p, f (snd p))) obj) k = map_option f (map_of obj k)"
  by (induction obj) auto

lemma categoryStep_groups:
  assumes safe: "categoryKeyOf x \<notin> set protoNames"
  shows "categoryStep (map (\<lambda>p. (fst p, \<lparr>display = category (hd (snd p)), items = snd p\<rparr>))
                         (groupsOf categoryKeyOf xs)) x
       = Inr (map (\<lambda>p. (fst p, \<lparr>display = category (hd (snd p)), items = snd p\<rparr>))
                (groupsOf categoryKeyOf (xs @ [x])))"
proof -
  let ?G = "\<lambda>p :: string \<times> Expense list. (fst p, \<lparr>display = category (hd (snd p)), items = snd p\<rparr>)"
  let ?k = "categoryKeyOf x"
  let ?obj = "map ?G (groupsOf categoryKeyOf xs)"
  let ?es = "filter (\<lambda>y. categoryKeyOf y = ?k) xs"
  have keys: "map fst ?obj = map fst (groupsOf categoryKeyOf xs)" by (simp add: comp_def)
  have dist: "distinct (map fst ?obj)" by (simp only: keys distinct_keys_groupsOf)
  have look: "map_of ?obj ?k = (if ?k \<in> categoryKeyOf ` set xs
      then Some \<lparr>display = category (hd ?es), items = ?es\<rparr> else None)"
    using map_of_map_value[of "\<lambda>es. \<lparr>display = category (hd es), items = es\<rparr>"
            "groupsOf categoryKeyOf xs" ?k]
    by (simp add: map_of_groupsOf)
  show ?thesis
  proof (cases "?k \<in> categoryKeyOf ` set xs")
    case True
    then obtain y where y: "y \<in> set xs" "categoryKeyOf y = ?k" by force
    then have "y \<in> set ?es" by simp
    then have ne: "?es \<noteq> []" by (metis empty_iff empty_set)
    from True look have "map_of ?obj ?k = Some \<lparr>display = category (hd ?es), items = ?es\<rparr>"
      by simp
    then have mem: "?k \<in> fst ` set ?obj"
      by (rule map_of_Some_key)
    have "setProp ?obj ?k \<lparr>display = category (hd ?es), items = ?es @ [x]\<rparr>
        = map (\<lambda>p. if fst p = ?k then (?k, \<lparr>display = category (hd ?es), items = ?es @ [x]\<rparr>) else p) ?obj"
      using dist mem by (rule setProp_old)
    also have "\<dots> = map ?G (map (\<lambda>p. if fst p = ?k then (fst p, snd p @ [x]) else p) (groupsOf categoryKeyOf xs))"
      unfolding map_map
    proof (rule map_cong[OF refl])
      fix p assume a: "p \<in> set (groupsOf categoryKeyOf xs)"
      have sp: "snd p = filter (\<lambda>y. categoryKeyOf y = fst p) xs"
        using a groupsOf_member[of "fst p" "snd p" categoryKeyOf xs] by simp
      show "((\<lambda>p. if fst p = ?k then (?k, \<lparr>display = category (hd ?es), items = ?es @ [x]\<rparr>) else p) \<circ> ?G) p
          = (?G \<circ> (\<lambda>p. if fst p = ?k then (fst p, snd p @ [x]) else p)) p"
        using sp ne by (auto simp: hd_append)
    qed
    also have "\<dots> = map ?G (groupsOf categoryKeyOf (xs @ [x]))"
      using True by (simp add: groupsOf_snoc)
    finally show ?thesis
      using True look by (simp add: categoryStep_def Let_def getProp_def categoryKeyOf_def[symmetric])
  next
    case False
    with look have n: "map_of ?obj ?k = None" by simp
    then have nomem: "?k \<notin> fst ` set ?obj"
      by (rule iffD1[OF map_of_None_key])
    have g1: "getProp ?obj ?k = Undefined"
      using n safe by (simp add: getProp_def)
    have o2: "setProp (setProp ?obj ?k g0) ?k g = ?obj @ [(?k, g)]" for g0 g
      by (subst setProp_twice) (rule setProp_new[OF nomem])
    have "groupsOf categoryKeyOf (xs @ [x]) = groupsOf categoryKeyOf xs @ [(?k, [x])]"
      using False by (simp add: groupsOf_snoc)
    then show ?thesis
      by (simp add: categoryStep_def Let_def categoryKeyOf_def[symmetric] g1 getProp_setProp o2)
  qed
qed

lemma categoryStep_returns:
  assumes "categoryStep obj x = Inr obj'" and "fst ` set obj \<inter> set protoNames = {}"
  shows "categoryKeyOf x \<notin> set protoNames \<and> fst ` set obj' \<inter> set protoNames = {}"
proof -
  let ?k = "categoryKeyOf x"
  have safe: "?k \<notin> set protoNames"
  proof
    assume bad: "?k \<in> set protoNames"
    with assms(2) have "?k \<notin> fst ` set obj" by blast
    then have "map_of obj ?k = None" by (simp add: map_of_None_key)
    with bad have "categoryStep obj x = Inl TypeError"
      by (simp add: categoryStep_def Let_def getProp_def categoryKeyOf_def[symmetric])
    with assms(1) show False by simp
  qed
  have "\<exists>obj1 g. obj' = setProp obj1 ?k g
          \<and> (obj1 = obj \<or> (\<exists>g0. obj1 = setProp obj ?k g0))"
    using assms(1)
    by (cases "truthy (getProp obj ?k)")
       (auto simp: categoryStep_def Let_def categoryKeyOf_def[symmetric] split: lookup.splits)
  then obtain obj1 g where o: "obj' = setProp obj1 ?k g"
    and o1: "obj1 = obj \<or> (\<exists>g0. obj1 = setProp obj ?k g0)" by blast
  from o1 have "fst ` set obj' = insert ?k (fst ` set obj)"
  proof (elim disjE exE)
    assume "obj1 = obj"
    with o show ?thesis by (simp add: keys_setProp)
  next
    fix g0 assume "obj1 = setProp obj ?k g0"
    with o show ?thesis by (simp add: keys_setProp)
  qed
  with safe assms(2) show ?thesis by simp
qed

lemma categoryLoop_returns:
  "forEachE categoryStep xs obj = Inr obj' \<Longrightarrow> fst ` set obj \<inter> set protoNames = {} \<Longrightarrow>
   \<forall>x \<in> set xs. categoryKeyOf x \<notin> set protoNames"
proof (induction xs arbitrary: obj)
  case Nil
  then show ?case by simp
next
  case (Cons x xs)
  from Cons.prems(1) obtain obj1 where s: "categoryStep obj x = Inr obj1"
    and r: "forEachE categoryStep xs obj1 = Inr obj'"
    by (auto split: sum.splits)
  from categoryStep_returns[OF s Cons.prems(2)] Cons.IH[OF r] show ?case by simp
qed

lemma categoryLoop_groups:
  "\<forall>x \<in> set xs. categoryKeyOf x \<notin> set protoNames \<Longrightarrow>
   forEachE categoryStep xs [] =
     Inr (map (\<lambda>p. (fst p, \<lparr>display = category (hd (snd p)), items = snd p\<rparr>))
            (groupsOf categoryKeyOf xs))"
proof (induction xs rule: rev_induct)
  case Nil
  then show ?case by (simp add: groupsOf_Nil)
next
  case (snoc x xs)
  then show ?case
    by (simp add: forEachE_snoc categoryStep_groups)
qed

text \<open>The loop of \<open>expensesByMonth\<close>.\<close>

lemma cellStep_groups:
  assumes safe: "categoryKeyOf x \<notin> set protoNames"
  shows "cellStep (groupsOf categoryKeyOf es) x = Inr (groupsOf categoryKeyOf (es @ [x]))"
proof -
  let ?k = "categoryKeyOf x"
  let ?inner = "groupsOf categoryKeyOf es"
  let ?old = "filter (\<lambda>y. categoryKeyOf y = ?k) es"
  have key: "toLocaleLowerCase (category x) = ?k"
    by (simp add: toLocaleLowerCase_def categoryKeyOf_def)
  show ?thesis
  proof (cases "?k \<in> categoryKeyOf ` set es")
    case True
    then have g: "getProp ?inner ?k = Own ?old"
      using safe by (simp add: getProp_groupsOf)
    show ?thesis
      by (simp add: cellStep_def Let_def key g setProp_groupsOf)
  next
    case False
    then have g: "getProp ?inner ?k = Undefined"
      using safe by (simp add: getProp_groupsOf)
    have "\<forall>y \<in> set es. categoryKeyOf y \<noteq> ?k"
      using False by (metis imageI)
    then have e: "?old = []" by (simp add: filter_empty_conv)
    have "setProp ?inner ?k [x] = groupsOf categoryKeyOf (es @ [x])"
      using setProp_groupsOf[of categoryKeyOf es x] e by simp
    then show ?thesis
      by (simp add: cellStep_def Let_def key g getProp_setProp setProp_twice)
  qed
qed

lemma cellStep_throws:
  assumes bad: "categoryKeyOf x \<in> set protoNames"
    and safe: "\<forall>y \<in> set es. categoryKeyOf y \<notin> set protoNames"
  shows "cellStep (groupsOf categoryKeyOf es) x = Inl TypeError"
proof -
  let ?k = "categoryKeyOf x"
  have key: "toLocaleLowerCase (category x) = ?k"
    by (simp add: toLocaleLowerCase_def categoryKeyOf_def)
  have "?k \<notin> categoryKeyOf ` set es" using bad safe by auto
  then have "map_of (groupsOf categoryKeyOf es) ?k = None"
    by (simp add: map_of_groupsOf)
  then have "getProp (groupsOf categoryKeyOf es) ?k = Inherited"
    using bad by (simp add: getProp_def)
  then show ?thesis
    by (simp add: cellStep_def Let_def key)
qed

lemma map_of_monthObj:
  "map_of (map (\<lambda>p. (fst p, groupsOf categoryKeyOf (snd p))) (groupsOf monthKeyOf xs)) l =
     (if l \<in> monthKeyOf ` set xs
      then Some (groupsOf categoryKeyOf (filter (\<lambda>y. monthKeyOf y = l) xs)) else None)"
  using map_of_map_value[of "groupsOf categoryKeyOf" "groupsOf monthKeyOf xs" l]
  by (simp add: map_of_groupsOf)

lemma setProp_monthObj:
  "setProp (map (\<lambda>p. (fst p, f (snd p))) (groupsOf key xs)) (key x)
           (f (filter (\<lambda>y. key y = key x) xs @ [x]))
   = map (\<lambda>p. (fst p, f (snd p))) (groupsOf key (xs @ [x]))"
proof -
  let ?G = "\<lambda>p. (fst p, f (snd p))"
  let ?obj = "map ?G (groupsOf key xs)"
  let ?old = "filter (\<lambda>y. key y = key x) xs"
  have keys: "map fst ?obj = firstSeen (map key xs)"
    by (simp add: comp_def map_fst_groupsOf[symmetric])
  show ?thesis
  proof (cases "key x \<in> key ` set xs")
    case True
    have dist: "distinct (map fst ?obj)" by (simp only: keys distinct_firstSeen)
    have "key x \<in> set (map fst ?obj)" using True by (simp only: keys set_firstSeen) simp
    then have mem: "key x \<in> fst ` set ?obj" by (simp only: set_map)
    have "setProp ?obj (key x) (f (?old @ [x]))
        = map (\<lambda>p. if fst p = key x then (key x, f (?old @ [x])) else p) ?obj"
      using dist mem by (rule setProp_old)
    also have "\<dots> = map ?G (map (\<lambda>p. if fst p = key x then (fst p, snd p @ [x]) else p) (groupsOf key xs))"
      unfolding map_map
    proof (rule map_cong[OF refl])
      fix p assume a: "p \<in> set (groupsOf key xs)"
      have sp: "snd p = filter (\<lambda>y. key y = fst p) xs"
        using a groupsOf_member[of "fst p" "snd p" key xs] by simp
      show "((\<lambda>p. if fst p = key x then (key x, f (?old @ [x])) else p) \<circ> ?G) p
          = (?G \<circ> (\<lambda>p. if fst p = key x then (fst p, snd p @ [x]) else p)) p"
        using sp by auto
    qed
    also have "\<dots> = map ?G (groupsOf key (xs @ [x]))"
      using True by (simp add: groupsOf_snoc)
    finally show ?thesis .
  next
    case False
    have "key x \<notin> set (map fst ?obj)" using False by (simp only: keys set_firstSeen) simp
    then have nomem: "key x \<notin> fst ` set ?obj" by (simp only: set_map not_False_eq_True)
    have "\<forall>y \<in> set xs. key y \<noteq> key x"
      using False by (metis imageI)
    then have e: "?old = []" by (simp add: filter_empty_conv)
    have "setProp ?obj (key x) (f (?old @ [x])) = ?obj @ [(key x, f [x])]"
      unfolding e using setProp_new[OF nomem] by simp
    also have "\<dots> = map ?G (groupsOf key (xs @ [x]))"
      using False by (simp add: groupsOf_snoc)
    finally show ?thesis .
  qed
qed

lemma monthStep_cases:
  "monthStep (map (\<lambda>p. (fst p, groupsOf categoryKeyOf (snd p))) (groupsOf monthKeyOf xs)) x =
     (case cellStep (groupsOf categoryKeyOf (filter (\<lambda>y. monthKeyOf y = monthKeyOf x) xs)) x of
        Inl err \<Rightarrow> Inl err
      | Inr inner' \<Rightarrow>
          Inr (setProp (map (\<lambda>p. (fst p, groupsOf categoryKeyOf (snd p))) (groupsOf monthKeyOf xs))
                 (monthKeyOf x) inner'))"
proof -
  let ?obj = "map (\<lambda>p. (fst p, groupsOf categoryKeyOf (snd p))) (groupsOf monthKeyOf xs)"
  let ?l = "monthKeyOf x"
  have key: "monthLabel (date x) = ?l" by (simp add: monthKeyOf_def)
  show ?thesis
  proof (cases "?l \<in> monthKeyOf ` set xs")
    case True
    then show ?thesis
      by (simp add: monthStep_def Let_def key map_of_monthObj)
  next
    case False
    have "\<forall>y \<in> set xs. monthKeyOf y \<noteq> ?l"
      using False by (metis imageI)
    then have e: "filter (\<lambda>y. monthKeyOf y = ?l) xs = []" by (simp add: filter_empty_conv)
    show ?thesis
      using False
      by (simp add: monthStep_def Let_def key map_of_monthObj e groupsOf_Nil
            map_of_setProp setProp_twice split: sum.splits)
  qed
qed

lemma monthStep_groups:
  assumes safe: "categoryKeyOf x \<notin> set protoNames"
  shows "monthStep (map (\<lambda>p. (fst p, groupsOf categoryKeyOf (snd p))) (groupsOf monthKeyOf xs)) x
       = Inr (map (\<lambda>p. (fst p, groupsOf categoryKeyOf (snd p))) (groupsOf monthKeyOf (xs @ [x])))"
  by (simp add: monthStep_cases cellStep_groups[OF safe] setProp_monthObj)

lemma monthStep_throws:
  assumes bad: "categoryKeyOf x \<in> set protoNames"
    and safe: "\<forall>y \<in> set xs. categoryKeyOf y \<notin> set protoNames"
  shows "monthStep (map (\<lambda>p. (fst p, groupsOf categoryKeyOf (snd p))) (groupsOf monthKeyOf xs)) x
       = Inl TypeError"
proof -
  have "\<forall>y \<in> set (filter (\<lambda>y. monthKeyOf y = monthKeyOf x) xs). categoryKeyOf y \<notin> set protoNames"
    using safe by simp
  from cellStep_throws[OF bad this] show ?thesis
    by (simp add: monthStep_cases)
qed

lemma monthLoop_groups:
  "forEachE monthStep xs [] =
     (if \<forall>x \<in> set xs. categoryKeyOf x \<notin> set protoNames
      then Inr (map (\<lambda>p. (fst p, groupsOf categoryKeyOf (snd p))) (groupsOf monthKeyOf xs))
      else Inl TypeError)"
proof (induction xs rule: rev_induct)
  case Nil
  then show ?case by (simp add: groupsOf_Nil)
next
  case (snoc x xs)
  show ?case
  proof (cases "\<forall>y \<in> set xs. categoryKeyOf y \<notin> set protoNames")
    case True
    with snoc show ?thesis
      by (cases "categoryKeyOf x \<in> set protoNames")
         (simp_all add: forEachE_snoc monthStep_groups monthStep_throws)
  next
    case False
    with snoc show ?thesis by (auto simp: forEachE_snoc)
  qed
qed

text \<open>The loop of \<open>monthlyTotals\<close>.\<close>

lemma totalsStep_groups:
  "totalsStep (map (\<lambda>p. (fst p, sum_list (map amount (snd p)))) (groupsOf monthKeyOf xs)) x
     = map (\<lambda>p. (fst p, sum_list (map amount (snd p)))) (groupsOf monthKeyOf (xs @ [x]))"
proof -
  let ?f = "\<lambda>es. sum_list (map amount es)"
  let ?obj = "map (\<lambda>p. (fst p, ?f (snd p))) (groupsOf monthKeyOf xs)"
  let ?l = "monthKeyOf x"
  let ?old = "filter (\<lambda>y. monthKeyOf y = ?l) xs"
  have key: "monthLabel (date x) = ?l" by (simp add: monthKeyOf_def)
  have look: "map_of ?obj ?l = (if ?l \<in> monthKeyOf ` set xs then Some (?f ?old) else None)"
    using map_of_map_value[of ?f "groupsOf monthKeyOf xs" ?l]
    by (simp add: map_of_groupsOf)
  have push: "setProp ?obj ?l (?f ?old + amount x) = map (\<lambda>p. (fst p, ?f (snd p))) (groupsOf monthKeyOf (xs @ [x]))"
    using setProp_monthObj[of ?f monthKeyOf xs x] by simp
  show ?thesis
  proof (cases "?l \<in> monthKeyOf ` set xs")
    case True
    with look have m: "map_of ?obj ?l = Some (?f ?old)" by simp
    have same: "?f ?old = 0 \<Longrightarrow> setProp ?obj ?l 0 = ?obj"
      using setProp_same[OF m] by simp
    show ?thesis
      using push same
      by (cases "?f ?old = 0") (simp_all add: totalsStep_def Let_def key m)
  next
    case False
    with look have m: "map_of ?obj ?l = None" by simp
    have "\<forall>y \<in> set xs. monthKeyOf y \<noteq> ?l"
      using False by (metis imageI)
    then have e: "?old = []" by (simp add: filter_empty_conv)
    show ?thesis
      using push
      by (simp add: totalsStep_def Let_def key m e map_of_setProp setProp_twice)
  qed
qed

lemma monthlyTotals_groups:
  "monthlyTotals xs = map (\<lambda>p. (fst p, sum_list (map amount (snd p)))) (groupsOf monthKeyOf xs)"
proof (induction xs rule: rev_induct)
  case Nil
  then show ?case by (simp add: monthlyTotals_def groupsOf_Nil)
next
  case (snoc x xs)
  then show ?case
    by (simp add: monthlyTotals_def totalsStep_groups)
qed

section \<open>What the views hold when the render returns\<close>

lemma expensesByCategory_Inr:
  assumes "expensesByCategory fe = Inr obj"
  shows "(\<forall>x \<in> set fe. categoryKeyOf x \<notin> set protoNames)
       \<and> obj = map (\<lambda>p. (fst p, \<lparr>display = category (hd (snd p)),
                                    items = arraySort dateCmp (snd p)\<rparr>))
                  (groupsOf categoryKeyOf fe)"
proof -
  from assms obtain obj0 where l: "forEachE categoryStep fe [] = Inr obj0"
    and o: "obj = map (\<lambda>(k, cat). (k, cat\<lparr>items := arraySort dateCmp (items cat)\<rparr>)) obj0"
    by (auto simp: expensesByCategory_def split: sum.splits)
  have safe: "\<forall>x \<in> set fe. categoryKeyOf x \<notin> set protoNames"
    using categoryLoop_returns[OF l] by simp
  from categoryLoop_groups[OF safe] l
  have "obj0 = map (\<lambda>p. (fst p, \<lparr>display = category (hd (snd p)), items = snd p\<rparr>))
                 (groupsOf categoryKeyOf fe)"
    by simp
  with o safe show ?thesis by (simp add: comp_def)
qed

lemma expensesByCategory_safe:
  assumes "\<forall>x \<in> set fe. categoryKeyOf x \<notin> set protoNames"
  shows "\<exists>obj. expensesByCategory fe = Inr obj"
  by (simp add: expensesByCategory_def categoryLoop_groups[OF assms])

lemma sortedCategories_Inr:
  assumes "sortedCategories localeCompare fe = Inr cats"
  shows "(\<forall>x \<in> set fe. categoryKeyOf x \<notin> set protoNames)
       \<and> cats = arraySort (displayCmp localeCompare)
                  (map (\<lambda>p. \<lparr>display = category (hd (snd p)), items = arraySort dateCmp (snd p)\<rparr>)
                     (objectEntries (groupsOf categoryKeyOf fe)))"
proof -
  from assms obtain obj where e: "expensesByCategory fe = Inr obj"
    and c: "cats = arraySort (displayCmp localeCompare) (objectValues obj)"
    by (auto simp: sortedCategories_def split: sum.splits)
  let ?G = "\<lambda>p :: string \<times> Expense list.
              (fst p, \<lparr>display = category (hd (snd p)), items = arraySort dateCmp (snd p)\<rparr>)"
  from expensesByCategory_Inr[OF e]
  have safe: "\<forall>x \<in> set fe. categoryKeyOf x \<notin> set protoNames"
    and o: "obj = map ?G (groupsOf categoryKeyOf fe)" by simp_all
  have "objectEntries (map ?G obj') = map ?G (objectEntries obj')" for obj'
    by (simp add: objectEntries_def filter_map comp_def map_sort_key[symmetric])
  then have "objectValues obj
      = map (\<lambda>p. \<lparr>display = category (hd (snd p)), items = arraySort dateCmp (snd p)\<rparr>)
          (objectEntries (groupsOf categoryKeyOf fe))"
    by (simp add: objectValues_def o comp_def)
  with c safe show ?thesis by simp
qed

lemma mset_concat_map_cong:
  "mset xs = mset ys \<Longrightarrow> mset (concat (map f xs)) = mset (concat (map f ys))"
proof -
  assume a: "mset xs = mset ys"
  have "mset (concat (map f zs)) = sum_mset (image_mset (\<lambda>z. mset (f z)) (mset zs))" for zs
    by (induction zs) auto
  with a show ?thesis by simp
qed

lemma mset_categories:
  assumes "sortedCategories localeCompare fe = Inr cats"
  shows "mset cats = mset (map (\<lambda>p. \<lparr>display = category (hd (snd p)), items = arraySort dateCmp (snd p)\<rparr>)
                            (groupsOf categoryKeyOf fe))"
  using sortedCategories_Inr[OF assms]
  by (simp add: mset_arraySort mset_objectEntries)

lemma set_categories:
  assumes "sortedCategories localeCompare fe = Inr cats"
  shows "set cats = (\<lambda>k. \<lparr>display = category (hd (filter (\<lambda>e. categoryKeyOf e = k) fe)),
                         items = arraySort dateCmp (filter (\<lambda>e. categoryKeyOf e = k) fe)\<rparr>)
                     ` categoryKeyOf ` set fe"
proof -
  have "set cats = set (map (\<lambda>p. \<lparr>display = category (hd (snd p)), items = arraySort dateCmp (snd p)\<rparr>)
                          (groupsOf categoryKeyOf fe))"
    by (rule mset_eq_setD[OF mset_categories[OF assms]])
  also have "\<dots> = (\<lambda>k. \<lparr>display = category (hd (filter (\<lambda>e. categoryKeyOf e = k) fe)),
                         items = arraySort dateCmp (filter (\<lambda>e. categoryKeyOf e = k) fe)\<rparr>)
                     ` set (firstSeen (map categoryKeyOf fe))"
    by (simp add: groupsOf_def image_image)
  finally show ?thesis by (simp add: set_firstSeen)
qed

lemma mset_category_items:
  assumes "sortedCategories localeCompare fe = Inr cats"
  shows "mset (concat (map items cats)) = mset fe"
proof -
  let ?g = "\<lambda>p :: string \<times> Expense list.
      \<lparr>display = category (hd (snd p)), items = arraySort dateCmp (snd p)\<rparr>"
  have "mset (concat (map items cats)) = mset (concat (map items (map ?g (groupsOf categoryKeyOf fe))))"
    by (rule mset_concat_map_cong[OF mset_categories[OF assms]])
  also have "\<dots> = sum_mset (image_mset (\<lambda>p. mset (snd p)) (mset (groupsOf categoryKeyOf fe)))"
    by (simp add: mset_concat comp_def mset_arraySort sum_mset_sum_list[symmetric])
  also have "\<dots> = mset (concat (map snd (groupsOf categoryKeyOf fe)))"
    by (simp add: mset_concat comp_def sum_mset_sum_list[symmetric])
  finally show ?thesis by (simp add: mset_concat_groupsOf)
qed

lemma keys_monthObj:
  "objectKeys (map (\<lambda>p. (fst p, f (snd p))) (groupsOf monthKeyOf fe)) = firstSeen (map monthKeyOf fe)"
proof -
  have k: "map fst (map (\<lambda>p. (fst p, f (snd p))) (groupsOf monthKeyOf fe)) = firstSeen (map monthKeyOf fe)"
    by (simp add: comp_def map_fst_groupsOf)
  have "\<And>k. k \<in> set (firstSeen (map monthKeyOf fe)) \<Longrightarrow> \<not> isIndex k"
    by (auto simp: set_firstSeen monthKeyOf_def monthLabel_not_index)
  then show ?thesis
    unfolding objectKeys_keyOrder k by (rule keyOrder_no_index)
qed

lemma sortedMonths_Inr:
  assumes "sortedMonths fe = Inr months"
  shows "(\<forall>x \<in> set fe. categoryKeyOf x \<notin> set protoNames)
       \<and> months = map (\<lambda>l. \<lparr>label = l,
                              categories = groupsOf categoryKeyOf (filter (\<lambda>e. monthKeyOf e = l) fe)\<rparr>)
                     (arraySort labelCmp (firstSeen (map monthKeyOf fe)))"
proof -
  let ?obj = "map (\<lambda>p. (fst p, groupsOf categoryKeyOf (snd p))) (groupsOf monthKeyOf fe)"
  from assms obtain obj where e: "expensesByMonth fe = Inr obj"
    and m: "months = map (\<lambda>l. \<lparr>label = l,
                         categories = (case map_of obj l of Some c \<Rightarrow> c | None \<Rightarrow> [])\<rparr>)
                 (arraySort labelCmp (objectKeys obj))"
    by (auto simp: sortedMonths_def split: sum.splits)
  from e have safe: "\<forall>x \<in> set fe. categoryKeyOf x \<notin> set protoNames" and o: "obj = ?obj"
    by (auto simp: expensesByMonth_def monthLoop_groups split: if_splits)
  have "months = map (\<lambda>l. \<lparr>label = l,
                         categories = (case map_of ?obj l of Some c \<Rightarrow> c | None \<Rightarrow> [])\<rparr>)
                 (arraySort labelCmp (firstSeen (map monthKeyOf fe)))"
    using m unfolding o keys_monthObj .
  also have "\<dots> = map (\<lambda>l. \<lparr>label = l,
                              categories = groupsOf categoryKeyOf (filter (\<lambda>e. monthKeyOf e = l) fe)\<rparr>)
                     (arraySort labelCmp (firstSeen (map monthKeyOf fe)))"
  proof (rule map_cong[OF refl])
    fix l assume "l \<in> set (arraySort labelCmp (firstSeen (map monthKeyOf fe)))"
    then have "l \<in> monthKeyOf ` set fe"
      by (simp add: set_arraySort set_firstSeen)
    then show "\<lparr>label = l, categories = (case map_of ?obj l of Some c \<Rightarrow> c | None \<Rightarrow> [])\<rparr>
             = \<lparr>label = l, categories = groupsOf categoryKeyOf (filter (\<lambda>e. monthKeyOf e = l) fe)\<rparr>"
      by (simp add: map_of_monthObj)
  qed
  finally show ?thesis using safe by simp
qed

lemma monthCells_view:
  "monthCells \<lparr>label = l, categories = groupsOf categoryKeyOf es\<rparr>
     = objectEntries (groupsOf categoryKeyOf es)"
  by (simp add: monthCells_def)

lemma mset_monthItems:
  "mset (monthItems \<lparr>label = l, categories = groupsOf categoryKeyOf es\<rparr>) = mset es"
proof -
  have "mset (concat (map snd (objectEntries (groupsOf categoryKeyOf es))))
      = mset (concat (map snd (groupsOf categoryKeyOf es)))"
    by (rule mset_concat_map_cong) (rule mset_objectEntries)
  then show ?thesis
    by (simp add: monthItems_def objectValues_def mset_concat_groupsOf)
qed

lemma mset_month_items:
  assumes "sortedMonths fe = Inr months"
  shows "mset (concat (map monthItems months)) = mset fe"
proof -
  let ?ls = "arraySort labelCmp (firstSeen (map monthKeyOf fe))"
  let ?V = "\<lambda>l. \<lparr>label = l, categories = groupsOf categoryKeyOf (filter (\<lambda>e. monthKeyOf e = l) fe)\<rparr>"
  have m: "months = map ?V ?ls" using sortedMonths_Inr[OF assms] by simp
  have "mset (concat (map monthItems months))
      = sum_mset (image_mset (\<lambda>l. mset (monthItems (?V l))) (mset ?ls))"
    unfolding m by (simp add: mset_concat comp_def sum_mset_sum_list[symmetric])
  also have "\<dots> = sum_mset (image_mset (\<lambda>l. mset (filter (\<lambda>e. monthKeyOf e = l) fe))
                        (mset (firstSeen (map monthKeyOf fe))))"
    by (simp add: mset_monthItems mset_arraySort)
  also have "\<dots> = mset (concat (map (\<lambda>l. filter (\<lambda>e. monthKeyOf e = l) fe) (firstSeen (map monthKeyOf fe))))"
    by (simp add: mset_concat comp_def sum_mset_sum_list[symmetric])
  also have "\<dots> = mset fe"
    by (rule mset_concat_filters) (simp_all add: distinct_firstSeen set_firstSeen)
  finally show ?thesis .
qed

section \<open>The model on the sample inputs\<close>

lemma sample_fields:
  "category coffee = ''Food''" "category bus = ''Transport''" "category lunch = ''food''"
  "category tea = ''Food''" "category ticket = ''7''"
  "title coffee = ''Coffee''" "title bus = ''Bus''" "title lunch = ''Lunch''"
  "notes' coffee = None" "notes' bus = None" "notes' lunch = Some ''with Bob''"
  "amount coffee = 9 / 2" "amount bus = 11 / 4" "amount lunch = 12"
  "id' coffee = ''1''" "id' bus = ''2''" "id' lunch = ''3''"
  by (simp_all add: coffee_def bus_def lunch_def tea_def ticket_def)

lemma sample_lower:
  "toLowerCase ''Food'' = ''food''" "toLowerCase ''food'' = ''food''"
  "toLowerCase ''Transport'' = ''transport''" "toLowerCase ''7'' = ''7''"
  "toLowerCase ''Coffee'' = ''coffee''" "toLowerCase ''Bus'' = ''bus''"
  "toLowerCase ''Lunch'' = ''lunch''" "toLowerCase ''with Bob'' = ''with bob''"
  "toLowerCase ''bus'' = ''bus''" "toLowerCase '' '' = '' ''"
  by (simp_all add: toLowerCase_def lowerChar_def isUpper_def)

lemma digits_2024: "digits 2024 = ''2024''"
  by (simp add: digits.simps digitChar_def)

lemma sample_labels:
  "monthLabel (date coffee) = ''March 2024''" "monthLabel (date bus) = ''March 2024''"
  "monthLabel (date lunch) = ''April 2024''" "monthLabel (date tea) = ''March 2024''"
  "monthLabel (date ticket) = ''March 2024''"
  by (simp_all add: monthLabel_def coffee_def bus_def lunch_def tea_def ticket_def digits_2024)

lemma sample_times:
  "getTime (date coffee) = 753022" "getTime (date bus) = 753036" "getTime (date lunch) = 753054"
  "getTime (date tea) = 753022" "getTime (date ticket) = 753041"
  by (simp_all add: getTime_def monthIndex_def coffee_def bus_def lunch_def tea_def ticket_def)

lemma sample_labelTimes:
  "labelTime ''March 2024'' = Some 753022" "labelTime ''April 2024'' = Some 753053"
  by (simp_all add: labelTime_def parseMonthLabel_def allMonths_def isDigit_def decimal_def
        digitVal_def getTime_def monthIndex_def)

lemma sample_index:
  "isIndex ''food'' = False" "isIndex ''transport'' = False" "isIndex ''7'' = True"
  "indexOf ''7'' = 7" "isIndex ''March 2024'' = False" "isIndex ''April 2024'' = False"
  by (simp_all add: isIndex_def indexOf_def arrayIndex_def isDigit_def decimal_def digitVal_def)

lemma sample_distinct:
  "coffee \<noteq> bus" "coffee \<noteq> lunch" "bus \<noteq> lunch" "tea \<noteq> coffee" "tea \<noteq> lunch" "bus \<noteq> ticket"
  by (simp_all add: coffee_def bus_def lunch_def tea_def ticket_def)

lemmas run_rules =
  sortedCategories_def expensesByCategory_def categoryStep_def cellStep_def monthStep_def
  sortedMonths_def expensesByMonth_def getProp_def protoNames_def Let_def
  toLocaleLowerCase_def arraySort_def dateCmp_def displayCmp_def labelCmp_def
  objectValues_def objectKeys_def objectEntries_def monthCells_def monthItems_def
  monthlyTotals_def totalsStep_def monthLabels_def monthValues_def
  sample_fields sample_lower sample_labels sample_times sample_labelTimes sample_index

lemma run_categories:
  "sortedCategories codeUnitCompare scenarioA =
     Inr [\<lparr>display = ''Food'', items = [lunch, coffee]\<rparr>,
          \<lparr>display = ''Transport'', items = [bus]\<rparr>]"
  by (simp add: scenarioA_def run_rules)

lemma run_months:
  "sortedMonths scenarioA =
     Inr [\<lparr>label = ''April 2024'', categories = [(''food'', [lunch])]\<rparr>,
          \<lparr>label = ''March 2024'',
             categories = [(''food'', [coffee]), (''transport'', [bus])]\<rparr>]"
  by (simp add: scenarioA_def run_rules)

lemma run_ties:
  "sortedCategories codeUnitCompare [tea, lunch, coffee] =
     Inr [\<lparr>display = ''Food'', items = [lunch, tea, coffee]\<rparr>]"
  by (simp add: run_rules)

lemma run_numbered:
  "sortedMonths [bus, ticket] =
     Inr [\<lparr>label = ''March 2024'', categories = [(''transport'', [bus]), (''7'', [ticket])]\<rparr>]"
  by (simp add: run_rules)

lemma run_series:
  "monthLabels scenarioA = [''March 2024'', ''April 2024'']"
  "monthValues scenarioA = [29 / 4, 12]"
  by (simp_all add: scenarioA_def run_rules)

lemma codeUnitCompare_total: "codeUnitCompare a b \<le> 0 \<or> codeUnitCompare b a \<le> 0"
  by (induction a b rule: codeUnitCompare.induct) auto

lemma codeUnitCompare_trans:
  "codeUnitCompare a b \<le> 0 \<Longrightarrow> codeUnitCompare b c \<le> 0 \<Longrightarrow> codeUnitCompare a c \<le> 0"
proof (induction a b arbitrary: c rule: codeUnitCompare.induct)
  case 1
  then show ?case by simp
next
  case (2 c0 t)
  then show ?case by (cases c) simp_all
next
  case (3 d s)
  then show ?case by simp
next
  case (4 d s c0 t)
  show ?case
  proof (cases c)
    case Nil
    with "4.prems" show ?thesis by simp
  next
    case (Cons e u)
    from "4.prems"(1) have p1: "(of_char d :: nat) < of_char c0
        \<or> ((of_char d :: nat) = of_char c0 \<and> codeUnitCompare s t \<le> 0)"
      by (simp split: if_splits)
    from "4.prems"(2) Cons have p2: "(of_char c0 :: nat) < of_char e
        \<or> ((of_char c0 :: nat) = of_char e \<and> codeUnitCompare t u \<le> 0)"
      by (simp split: if_splits)
    show ?thesis
    proof (cases "(of_char d :: nat) < of_char e")
      case True
      with Cons show ?thesis by simp
    next
      case False
      with p1 p2 have n1: "\<not> (of_char d :: nat) < of_char c0" "\<not> (of_char c0 :: nat) < of_char d"
        and n2: "\<not> (of_char e :: nat) < of_char d"
        and le: "codeUnitCompare s t \<le> 0" "codeUnitCompare t u \<le> 0"
        by linarith+
      have "codeUnitCompare s u \<le> 0"
        by (rule "4.IH"[OF n1 le])
      then show ?thesis
        unfolding Cons using False n2 by simp
    qed
  qed
qed

section \<open>The claims\<close>

lemma totalSpent_sum: "totalSpent es = sum_list (map amount es)"
  by (simp add: totalSpent_def foldl_amount)

lemma categoryTotal_sum: "categoryTotal es = sum_list (map amount es)"
  by (simp add: categoryTotal_def foldl_amount)

lemma monthTotal_sum: "monthTotal m = sum_list (map amount (monthItems m))"
  by (simp add: monthTotal_def foldl_amount)

lemma sum_list_concat_map:
  "sum_list (map (\<lambda>x. sum_list (map amount (f x))) xs) = sum_list (map amount (concat (map f xs)))"
  by (induction xs) auto

lemma monthValues_groups:
  "monthValues R = map (\<lambda>l. sum_list (map amount (filter (\<lambda>e. monthKeyOf e = l) R)))
                     (firstSeen (map monthKeyOf R))"
proof -
  let ?T = "\<lambda>p :: string \<times> Expense list. (fst p, sum_list (map amount (snd p)))"
  have noidx: "\<And>p. p \<in> set (map ?T (groupsOf monthKeyOf R)) \<Longrightarrow> \<not> isIndex (fst p)"
    by (auto simp: groupsOf_def set_firstSeen monthKeyOf_def monthLabel_not_index)
  have "objectEntries (map ?T (groupsOf monthKeyOf R)) = map ?T (groupsOf monthKeyOf R)"
    by (rule objectEntries_no_index) (rule noidx)
  then show ?thesis
    by (simp add: monthValues_def objectValues_def monthlyTotals_groups groupsOf_def comp_def)
qed

lemma monthLabels_groups: "monthLabels R = firstSeen (map monthKeyOf R)"
  unfolding monthLabels_def monthlyTotals_groups by (rule keys_monthObj)

text \<open>
  In exact arithmetic the values of the chart series add up to the grand total of the
  unfiltered records.
\<close>

theorem series_sums_to_total:
  "sum_list (monthValues R) = totalSpent R
   \<and> (DashboardPage localeCompare R q = Inr pg \<longrightarrow> sum_list (chartValues pg) = pageTotal pg)"
proof -
  have "sum_list (monthValues R)
      = sum_list (map amount (concat (map (\<lambda>l. filter (\<lambda>e. monthKeyOf e = l) R)
                                        (firstSeen (map monthKeyOf R)))))"
    by (simp add: monthValues_groups comp_def sum_list_concat_map)
  also have "\<dots> = sum_list (map amount R)"
    by (rule sum_list_mset_cong, rule mset_concat_filters)
       (simp_all add: distinct_firstSeen set_firstSeen)
  finally have s: "sum_list (monthValues R) = totalSpent R"
    by (simp add: totalSpent_sum)
  have "DashboardPage localeCompare R q = Inr pg \<longrightarrow> sum_list (chartValues pg) = pageTotal pg"
    using s by (auto simp: DashboardPage_def Let_def split: sum.splits)
  with s show ?thesis by simp
qed

lemma run_page:
  "DashboardPage codeUnitCompare scenarioA ''bus'' =
     Inr \<lparr>pageTotal = 77 / 4,
          pageCategories = [\<lparr>display = ''Transport'', items = [bus]\<rparr>],
          pageMonths = [\<lparr>label = ''March 2024'', categories = [(''transport'', [bus])]\<rparr>],
          chartLabels = [''March 2024'', ''April 2024''],
          chartValues = [29 / 4, 12]\<rparr>"
proof -
  have f: "filteredExpenses scenarioA ''bus'' = [bus]"
    by (simp add: filteredExpenses_def scenarioA_def sample_fields sample_lower Let_def)
  have c: "sortedCategories codeUnitCompare [bus] = Inr [\<lparr>display = ''Transport'', items = [bus]\<rparr>]"
    by (simp add: run_rules)
  have m: "sortedMonths [bus] = Inr [\<lparr>label = ''March 2024'', categories = [(''transport'', [bus])]\<rparr>]"
    by (simp add: run_rules)
  have t: "totalSpent scenarioA = 77 / 4"
    by (simp add: totalSpent_def scenarioA_def sample_fields)
  show ?thesis
    by (simp add: DashboardPage_def Let_def f c m t run_series)
qed

theorem series_sums_to_total_witness:
  "DashboardPage codeUnitCompare scenarioA ''bus''
     = Inr \<lparr>pageTotal = 77 / 4,
            pageCategories = [\<lparr>display = ''Transport'', items = [bus]\<rparr>],
            pageMonths = [\<lparr>label = ''March 2024'', categories = [(''transport'', [bus])]\<rparr>],
            chartLabels = [''March 2024'', ''April 2024''],
            chartValues = [29 / 4, 12]\<rparr>
   \<and> sum_list (monthValues scenarioA) = totalSpent scenarioA
   \<and> sum_list [29 / 4, 12 :: real] = 77 / 4"
  using series_sums_to_total[of scenarioA codeUnitCompare "''bus''"] run_page
  by simp

text \<open>
  C3. An empty query keeps every record, in the input order. A query that is not empty
  (a query of spaces is not empty) keeps, in the input order, exactly the records of
  which the lower-cased title, category or notes (no notes counting as the empty
  string) contains the lower-cased query as a contiguous substring.
\<close>

theorem filter_by_query:
  "filteredExpenses R [] = R
   \<and> (q \<noteq> [] \<longrightarrow>
        filteredExpenses R q =
          filter (\<lambda>e. sublist (toLowerCase q) (toLowerCase (title e))
                    \<or> sublist (toLowerCase q) (toLowerCase (category e))
                    \<or> sublist (toLowerCase q)
                         (toLowerCase (case notes' e of None \<Rightarrow> [] | Some n \<Rightarrow> n))) R)"
proof -
  have e: "filteredExpenses R [] = R"
    by (simp add: filteredExpenses_def)
  have "filteredExpenses R q =
          filter (\<lambda>e. sublist (toLowerCase q) (toLowerCase (title e))
                    \<or> sublist (toLowerCase q) (toLowerCase (category e))
                    \<or> sublist (toLowerCase q)
                         (toLowerCase (case notes' e of None \<Rightarrow> [] | Some n \<Rightarrow> n))) R"
    if q: "q \<noteq> []"
  proof -
    have ne: "toLowerCase q \<noteq> []" using q by (simp add: toLowerCase_def)
    have n: "(case notes' e of None \<Rightarrow> False | Some n \<Rightarrow> includesStr (toLowerCase n) (toLowerCase q))
           = sublist (toLowerCase q) (toLowerCase (case notes' e of None \<Rightarrow> [] | Some n \<Rightarrow> n))" for e
      using ne by (cases "notes' e") (simp_all add: includesStr_iff_sublist toLowerCase_def)
    show ?thesis
      using q unfolding filteredExpenses_def Let_def n
      by (simp add: includesStr_iff_sublist)
  qed
  with e show ?thesis by simp
qed

text \<open>
  What the lower-casing of both sides means: some contiguous piece of the field equals
  the query up to the case of its letters.
\<close>

lemma sublist_toLowerCase:
  "sublist (toLowerCase q) (toLowerCase s) \<longleftrightarrow> (\<exists>u. sublist u s \<and> toLowerCase u = toLowerCase q)"
proof
  assume "sublist (toLowerCase q) (toLowerCase s)"
  then obtain ps ss where eq: "map lowerChar s = ps @ map lowerChar q @ ss"
    by (auto simp: sublist_def toLowerCase_def)
  let ?u = "take (length q) (drop (length ps) s)"
  have "map lowerChar ?u = take (length q) (drop (length ps) (map lowerChar s))"
    by (simp add: take_map drop_map)
  also have "\<dots> = map lowerChar q"
    unfolding eq by simp
  finally have 1: "toLowerCase ?u = toLowerCase q"
    by (simp add: toLowerCase_def)
  have "sublist ?u (drop (length ps) s)" by (rule sublist_take)
  moreover have "sublist (drop (length ps) s) s" by (rule sublist_drop)
  ultimately have "sublist ?u s" by (rule sublist_order.order_trans)
  with 1 show "\<exists>u. sublist u s \<and> toLowerCase u = toLowerCase q" by blast
next
  assume "\<exists>u. sublist u s \<and> toLowerCase u = toLowerCase q"
  then obtain u where u: "sublist u s" "toLowerCase u = toLowerCase q" by blast
  from u(1) obtain ps ss where "s = ps @ u @ ss" unfolding sublist_def by blast
  with u(2) have "toLowerCase s = toLowerCase ps @ toLowerCase q @ toLowerCase ss"
    by (simp add: toLowerCase_def)
  then show "sublist (toLowerCase q) (toLowerCase s)"
    unfolding sublist_def by blast
qed

theorem filter_by_query_witness:
  "'' '' \<noteq> []
   \<and> filteredExpenses scenarioA [] = scenarioA
   \<and> filteredExpenses scenarioA '' '' = [lunch]
   \<and> filter (\<lambda>e. sublist (toLowerCase '' '') (toLowerCase (title e))
                    \<or> sublist (toLowerCase '' '') (toLowerCase (category e))
                    \<or> sublist (toLowerCase '' '')
                         (toLowerCase (case notes' e of None \<Rightarrow> [] | Some n \<Rightarrow> n))) scenarioA
       = [lunch]"
proof -
  have q: "'' '' \<noteq> []" by simp
  have r: "filteredExpenses scenarioA '' '' = [lunch]"
    by (simp add: filteredExpenses_def scenarioA_def sample_fields sample_lower Let_def)
  from filter_by_query[of scenarioA "'' ''"] q r show ?thesis by simp
qed

text \<open>
  C6. The chart series is a function of the unfiltered records alone: in every render
  that returns, whatever the search term, the chart holds \<open>monthLabels\<close> and
  \<open>monthValues\<close> of all the records. The labels are the month labels of the records in
  the order of their first occurrence in the input, the value at each position is the
  sum of the amounts of the records of the label at that position, and no records give
  no labels and no values.
\<close>

theorem series_first_seen:
  "monthLabels R = firstSeen (map (\<lambda>e. monthLabel (date e)) R)
   \<and> monthValues R =
       map (\<lambda>l. sum_list (map amount (filter (\<lambda>e. monthLabel (date e) = l) R))) (monthLabels R)
   \<and> monthLabels [] = [] \<and> monthValues [] = []
   \<and> (DashboardPage localeCompare R q = Inr pg \<longrightarrow>
        chartLabels pg = monthLabels R \<and> chartValues pg = monthValues R)"
proof -
  have k: "monthKeyOf = (\<lambda>e. monthLabel (date e))"
    by (simp add: fun_eq_iff monthKeyOf_def)
  have l: "monthLabels R = firstSeen (map (\<lambda>e. monthLabel (date e)) R)" for R
    using monthLabels_groups[of R] by (simp add: k)
  have v: "monthValues R =
       map (\<lambda>l. sum_list (map amount (filter (\<lambda>e. monthLabel (date e) = l) R))) (monthLabels R)" for R
    using monthValues_groups[of R] by (simp add: l k)
  have p: "DashboardPage localeCompare R q = Inr pg \<longrightarrow>
        chartLabels pg = monthLabels R \<and> chartValues pg = monthValues R"
    by (auto simp: DashboardPage_def Let_def split: sum.splits)
  have "monthLabels [] = []" by (simp add: l)
  moreover have "monthValues [] = []" using v[of "[]"] l[of "[]"] by simp
  ultimately show ?thesis using l[of R] v[of R] p by simp
qed

lemma run_series_reversed:
  "monthLabels [lunch, coffee] = [''April 2024'', ''March 2024'']"
  by (simp add: run_rules)

theorem series_first_seen_witness:
  "DashboardPage codeUnitCompare scenarioA ''bus''
     = Inr \<lparr>pageTotal = 77 / 4,
            pageCategories = [\<lparr>display = ''Transport'', items = [bus]\<rparr>],
            pageMonths = [\<lparr>label = ''March 2024'', categories = [(''transport'', [bus])]\<rparr>],
            chartLabels = [''March 2024'', ''April 2024''],
            chartValues = [29 / 4, 12]\<rparr>
   \<and> monthLabels scenarioA = [''March 2024'', ''April 2024'']
   \<and> monthValues scenarioA = [29 / 4, 12]
   \<and> firstSeen (map (\<lambda>e. monthLabel (date e)) scenarioA) = [''March 2024'', ''April 2024'']
   \<and> monthLabels [lunch, coffee] = [''April 2024'', ''March 2024'']"
  using series_first_seen[of scenarioA codeUnitCompare "''bus''"] run_page run_series
    run_series_reversed
  by simp

text \<open>
  In exact arithmetic, whenever the two views of the filtered records are returned, the
  totals of the category groups add up to the total of the filtered records, and so do
  the totals of the month groups.
\<close>

theorem view_totals_add_up:
  assumes "sortedCategories localeCompare (filteredExpenses R q) = Inr cats"
    and "sortedMonths (filteredExpenses R q) = Inr months"
  shows "sum_list (map (\<lambda>g. categoryTotal (items g)) cats) = totalSpent (filteredExpenses R q)
       \<and> sum_list (map monthTotal months) = totalSpent (filteredExpenses R q)"
proof -
  let ?fe = "filteredExpenses R q"
  have "sum_list (map (\<lambda>g. categoryTotal (items g)) cats)
      = sum_list (map amount (concat (map items cats)))"
    by (simp add: categoryTotal_sum sum_list_concat_map)
  also have "\<dots> = sum_list (map amount ?fe)"
    by (rule sum_list_mset_cong) (rule mset_category_items[OF assms(1)])
  finally have c: "sum_list (map (\<lambda>g. categoryTotal (items g)) cats) = totalSpent ?fe"
    by (simp add: totalSpent_sum)
  have "sum_list (map monthTotal ms) = sum_list (map amount (concat (map monthItems ms)))" for ms
    by (induction ms) (simp_all add: monthTotal_sum)
  then have "sum_list (map monthTotal months) = sum_list (map amount (concat (map monthItems months)))" .
  also have "\<dots> = sum_list (map amount ?fe)"
    by (rule sum_list_mset_cong) (rule mset_month_items[OF assms(2)])
  finally have "sum_list (map monthTotal months) = totalSpent ?fe"
    by (simp add: totalSpent_sum)
  with c show ?thesis by simp
qed

lemma run_totals:
  "categoryTotal [lunch, coffee] = 33 / 2" "categoryTotal [bus] = 11 / 4"
  "monthTotal \<lparr>label = ''April 2024'', categories = [(''food'', [lunch])]\<rparr> = 12"
  "monthTotal \<lparr>label = ''March 2024'',
               categories = [(''food'', [coffee]), (''transport'', [bus])]\<rparr> = 29 / 4"
  "totalSpent scenarioA = 77 / 4"
  by (simp_all add: categoryTotal_def monthTotal_def totalSpent_def scenarioA_def run_rules)

theorem view_totals_add_up_witness:
  "sortedCategories codeUnitCompare (filteredExpenses scenarioA []) =
     Inr [\<lparr>display = ''Food'', items = [lunch, coffee]\<rparr>,
          \<lparr>display = ''Transport'', items = [bus]\<rparr>]
   \<and> sortedMonths (filteredExpenses scenarioA []) =
     Inr [\<lparr>label = ''April 2024'', categories = [(''food'', [lunch])]\<rparr>,
          \<lparr>label = ''March 2024'',
             categories = [(''food'', [coffee]), (''transport'', [bus])]\<rparr>]
   \<and> 33 / 2 + 11 / 4 = totalSpent (filteredExpenses scenarioA [])
   \<and> 12 + 29 / 4 = totalSpent (filteredExpenses scenarioA [])"
proof -
  have f: "filteredExpenses scenarioA [] = scenarioA" by (simp add: filteredExpenses_def)
  have c: "sortedCategories codeUnitCompare (filteredExpenses scenarioA []) =
     Inr [\<lparr>display = ''Food'', items = [lunch, coffee]\<rparr>,
          \<lparr>display = ''Transport'', items = [bus]\<rparr>]"
    unfolding f by (rule run_categories)
  have m: "sortedMonths (filteredExpenses scenarioA []) =
     Inr [\<lparr>label = ''April 2024'', categories = [(''food'', [lunch])]\<rparr>,
          \<lparr>label = ''March 2024'',
             categories = [(''food'', [coffee]), (''transport'', [bus])]\<rparr>]"
    unfolding f by (rule run_months)
  from view_totals_add_up[OF c m] c m show ?thesis
    by (simp add: run_totals)
qed

text \<open>
  Whenever the views are returned, the records across the items of all the category
  groups are the input records, each as often as in the input, and so are the records
  across all the cells of all the month groups; hence the same holds of their ids.
\<close>

theorem views_keep_every_record:
  assumes "sortedCategories localeCompare R = Inr cats"
    and "sortedMonths R = Inr months"
  shows "mset (map id' (concat (map items cats))) = mset (map id' R)
       \<and> mset (map id' (concat (map (\<lambda>m. concat (map snd (monthCells m))) months)))
           = mset (map id' R)"
proof -
  have "monthItems = (\<lambda>m. concat (map snd (monthCells m)))"
    by (simp add: fun_eq_iff monthItems_def monthCells_def objectValues_def)
  with mset_month_items[OF assms(2)]
  have "mset (concat (map (\<lambda>m. concat (map snd (monthCells m))) months)) = mset R" by simp
  then have "mset (map id' (concat (map (\<lambda>m. concat (map snd (monthCells m))) months)))
      = mset (map id' R)"
    by (simp only: mset_map)
  moreover have "mset (map id' (concat (map items cats))) = mset (map id' R)"
    using mset_category_items[OF assms(1)] by (simp only: mset_map)
  ultimately show ?thesis by simp
qed

theorem views_keep_every_record_witness:
  "sortedCategories codeUnitCompare scenarioA =
     Inr [\<lparr>display = ''Food'', items = [lunch, coffee]\<rparr>,
          \<lparr>display = ''Transport'', items = [bus]\<rparr>]
   \<and> sortedMonths scenarioA =
     Inr [\<lparr>label = ''April 2024'', categories = [(''food'', [lunch])]\<rparr>,
          \<lparr>label = ''March 2024'',
             categories = [(''food'', [coffee]), (''transport'', [bus])]\<rparr>]
   \<and> mset (map id' [lunch, coffee, bus]) = mset (map id' scenarioA)
   \<and> map id' [lunch, coffee, bus] = [''3'', ''1'', ''2'']"
proof -
  have "mset (map id' (concat (map items [\<lparr>display = ''Food'', items = [lunch, coffee]\<rparr>,
          \<lparr>display = ''Transport'', items = [bus]\<rparr>]))) = mset (map id' scenarioA)"
    using views_keep_every_record[OF run_categories run_months] by (rule conjunct1)
  then have "mset (map id' [lunch, coffee, bus]) = mset (map id' scenarioA)"
    by simp
  moreover have "map id' [lunch, coffee, bus] = [''3'', ''1'', ''2'']"
    by (simp add: sample_fields)
  ultimately show ?thesis
    using run_categories run_months by (intro conjI)
qed

lemma category_group_shape:
  assumes "sortedCategories localeCompare R = Inr cats" and "g \<in> set cats"
  shows "\<exists>e es. filter (\<lambda>x. categoryKeyOf x = toLowerCase (display g)) R = e # es
              \<and> display g = category e \<and> items g = arraySort dateCmp (e # es)"
proof -
  let ?F = "\<lambda>k. filter (\<lambda>x. categoryKeyOf x = k) R"
  from assms set_categories[OF assms(1)]
  obtain k where k: "k \<in> categoryKeyOf ` set R"
    and g: "g = \<lparr>display = category (hd (?F k)), items = arraySort dateCmp (?F k)\<rparr>"
    by blast
  from k obtain y where "y \<in> set R" "categoryKeyOf y = k" by force
  then have "y \<in> set (?F k)" by simp
  then have "?F k \<noteq> []" by (metis empty_iff empty_set)
  then obtain e es where f: "?F k = e # es" by (cases "?F k") simp_all
  then have "e \<in> set (?F k)" by simp
  then have ek: "categoryKeyOf e = k" by simp
  have d: "display g = category e" using g f by simp
  then have "toLowerCase (display g) = k" using ek by (simp add: categoryKeyOf_def)
  with f g d show ?thesis by simp
qed

lemma category_group_exists:
  assumes "sortedCategories localeCompare R = Inr cats" and "a \<in> set R"
  shows "\<exists>g \<in> set cats. toLowerCase (display g) = categoryKeyOf a \<and> a \<in> set (items g)"
proof -
  let ?F = "\<lambda>k. filter (\<lambda>x. categoryKeyOf x = k) R"
  let ?k = "categoryKeyOf a"
  let ?g = "\<lparr>display = category (hd (?F ?k)), items = arraySort dateCmp (?F ?k)\<rparr>"
  have "?k \<in> categoryKeyOf ` set R" using assms(2) by (rule imageI)
  then have g: "?g \<in> set cats" unfolding set_categories[OF assms(1)] by (rule imageI)
  from category_group_shape[OF assms(1) g] obtain e es
    where f: "filter (\<lambda>x. categoryKeyOf x = toLowerCase (display ?g)) R = e # es"
      and i: "items ?g = arraySort dateCmp (e # es)" by blast
  have a: "a \<in> set (?F ?k)" using assms(2) by simp
  then have "a \<in> set (items ?g)" by (simp add: set_arraySort)
  with i have "a \<in> set (e # es)" by (simp add: set_arraySort)
  with f have "categoryKeyOf a = toLowerCase (display ?g)"
    by (metis (mono_tags, lifting) mem_Collect_eq set_filter)
  with g a show ?thesis
    by (intro bexI[of _ ?g]) (simp_all add: set_arraySort)
qed

text \<open>
  Whenever the category view is returned, two input records lie in one group exactly
  when their categories are equal after lower-casing, and the display label of a group
  is the category, as written, of the first input record of that group.
\<close>

theorem category_groups_by_lowercase:
  assumes "sortedCategories localeCompare R = Inr cats"
  shows "(\<forall>a \<in> set R. \<forall>b \<in> set R.
            (\<exists>g \<in> set cats. a \<in> set (items g) \<and> b \<in> set (items g))
            \<longleftrightarrow> toLowerCase (category a) = toLowerCase (category b))
       \<and> (\<forall>g \<in> set cats. \<exists>e es.
            filter (\<lambda>x. toLowerCase (category x) = toLowerCase (display g)) R = e # es
            \<and> display g = category e \<and> mset (items g) = mset (e # es))"
proof -
  have k: "categoryKeyOf = (\<lambda>x. toLowerCase (category x))"
    by (simp add: fun_eq_iff categoryKeyOf_def)
  have same: "(\<exists>g \<in> set cats. a \<in> set (items g) \<and> b \<in> set (items g))
        \<longleftrightarrow> categoryKeyOf a = categoryKeyOf b" if a: "a \<in> set R" and b: "b \<in> set R" for a b
  proof
    assume "\<exists>g \<in> set cats. a \<in> set (items g) \<and> b \<in> set (items g)"
    then obtain g where g: "g \<in> set cats" and ab: "a \<in> set (items g)" "b \<in> set (items g)"
      by blast
    from category_group_shape[OF assms g] obtain e es
      where f: "filter (\<lambda>x. categoryKeyOf x = toLowerCase (display g)) R = e # es"
        and i: "items g = arraySort dateCmp (e # es)" by blast
    from ab have "a \<in> set (filter (\<lambda>x. categoryKeyOf x = toLowerCase (display g)) R)"
      "b \<in> set (filter (\<lambda>x. categoryKeyOf x = toLowerCase (display g)) R)"
      unfolding f i by (simp_all add: set_arraySort)
    then show "categoryKeyOf a = categoryKeyOf b" by simp
  next
    assume e: "categoryKeyOf a = categoryKeyOf b"
    from category_group_exists[OF assms a] obtain g where g: "g \<in> set cats"
      and l: "toLowerCase (display g) = categoryKeyOf a" and ia: "a \<in> set (items g)" by blast
    from category_group_shape[OF assms g] obtain e' es
      where f: "filter (\<lambda>x. categoryKeyOf x = toLowerCase (display g)) R = e' # es"
        and i: "items g = arraySort dateCmp (e' # es)" by blast
    have "b \<in> set (filter (\<lambda>x. categoryKeyOf x = toLowerCase (display g)) R)"
      using b e l by simp
    then have "b \<in> set (items g)" unfolding i f[symmetric] by (simp add: set_arraySort)
    with g ia show "\<exists>g \<in> set cats. a \<in> set (items g) \<and> b \<in> set (items g)" by blast
  qed
  have first: "\<exists>e es. filter (\<lambda>x. categoryKeyOf x = toLowerCase (display g)) R = e # es
            \<and> display g = category e \<and> mset (items g) = mset (e # es)" if "g \<in> set cats" for g
    using category_group_shape[OF assms that] by (auto simp: mset_arraySort)
  from same first show ?thesis unfolding k by blast
qed

theorem category_groups_by_lowercase_witness:
  "sortedCategories codeUnitCompare scenarioA =
     Inr [\<lparr>display = ''Food'', items = [lunch, coffee]\<rparr>,
          \<lparr>display = ''Transport'', items = [bus]\<rparr>]
   \<and> toLowerCase (category coffee) = toLowerCase (category lunch)
   \<and> filter (\<lambda>x. toLowerCase (category x) = toLowerCase ''Food'') scenarioA = [coffee, lunch]
   \<and> category coffee = ''Food''"
proof -
  have f: "filter (\<lambda>x. toLowerCase (category x) = toLowerCase ''Food'') scenarioA = [coffee, lunch]"
    by (simp add: scenarioA_def sample_fields sample_lower)
  have "\<exists>e es. filter (\<lambda>x. toLowerCase (category x) = toLowerCase ''Food'') scenarioA = e # es
            \<and> ''Food'' = category e \<and> mset [lunch, coffee] = mset (e # es)"
    using category_groups_by_lowercase[OF run_categories] by simp
  then have "category coffee = ''Food''" unfolding f by simp
  moreover have "toLowerCase (category coffee) = toLowerCase (category lunch)"
    by (simp add: sample_fields sample_lower)
  ultimately show ?thesis using run_categories f by simp
qed

text \<open>
  C7. Whenever the category view is returned, the items of each group are in descending
  order of their time stamps, and the items of one time stamp stand in the group as they
  stand in the input.
\<close>

theorem category_items_newest_first:
  assumes "sortedCategories localeCompare R = Inr cats"
  shows "\<forall>g \<in> set cats.
           sorted_wrt (\<lambda>a b. getTime (date b) \<le> getTime (date a)) (items g)
           \<and> (\<forall>t. filter (\<lambda>e. getTime (date e) = t) (items g)
                  = filter (\<lambda>e. toLowerCase (category e) = toLowerCase (display g)
                               \<and> getTime (date e) = t) R)"
proof
  fix g assume g: "g \<in> set cats"
  from category_group_shape[OF assms g] obtain e es
    where f: "filter (\<lambda>x. categoryKeyOf x = toLowerCase (display g)) R = e # es"
      and i: "items g = arraySort dateCmp (e # es)" by blast
  have "sorted_wrt (\<lambda>a b. dateCmp a b \<le> 0) (arraySort dateCmp (e # es))"
    by (rule sorted_arraySort) (auto simp: dateCmp_def)
  then have s: "sorted_wrt (\<lambda>a b. getTime (date b) \<le> getTime (date a)) (items g)"
    unfolding i dateCmp_def by simp
  have "filter (\<lambda>e. getTime (date e) = t) (items g)
      = filter (\<lambda>e. toLowerCase (category e) = toLowerCase (display g) \<and> getTime (date e) = t) R" for t
  proof -
    have "filter (\<lambda>e. getTime (date e) = t) (arraySort dateCmp (e # es))
        = filter (\<lambda>e. getTime (date e) = t) (e # es)"
      by (rule filter_arraySort_stable) (simp add: dateCmp_def)
    also have "\<dots> = filter (\<lambda>e. getTime (date e) = t)
                       (filter (\<lambda>x. categoryKeyOf x = toLowerCase (display g)) R)"
      unfolding f ..
    finally show ?thesis unfolding i by (simp add: categoryKeyOf_def conj_commute)
  qed
  with s show "sorted_wrt (\<lambda>a b. getTime (date b) \<le> getTime (date a)) (items g)
           \<and> (\<forall>t. filter (\<lambda>e. getTime (date e) = t) (items g)
                  = filter (\<lambda>e. toLowerCase (category e) = toLowerCase (display g)
                               \<and> getTime (date e) = t) R)" by blast
qed

theorem category_items_newest_first_witness:
  "sortedCategories codeUnitCompare [tea, lunch, coffee] =
     Inr [\<lparr>display = ''Food'', items = [lunch, tea, coffee]\<rparr>]
   \<and> sorted_wrt (\<lambda>a b. getTime (date b) \<le> getTime (date a)) [lunch, tea, coffee]
   \<and> filter (\<lambda>e. getTime (date e) = 753022) [lunch, tea, coffee] = [tea, coffee]
   \<and> filter (\<lambda>e. toLowerCase (category e) = toLowerCase ''Food'' \<and> getTime (date e) = 753022)
         [tea, lunch, coffee] = [tea, coffee]"
proof -
  have "sorted_wrt (\<lambda>a b. getTime (date b) \<le> getTime (date a)) [lunch, tea, coffee]
      \<and> (\<forall>t. filter (\<lambda>e. getTime (date e) = t) [lunch, tea, coffee]
             = filter (\<lambda>e. toLowerCase (category e) = toLowerCase ''Food''
                          \<and> getTime (date e) = t) [tea, lunch, coffee])"
    using category_items_newest_first[OF run_ties] by simp
  moreover have "filter (\<lambda>e. getTime (date e) = 753022) [lunch, tea, coffee] = [tea, coffee]"
    by (simp add: sample_times)
  ultimately show ?thesis using run_ties by metis
qed

text \<open>The time stamp orders the calendar dates.\<close>

lemma getTime_calendar:
  assumes "1 \<le> day a" "day a \<le> 31" "1 \<le> day b" "day b \<le> 31"
  shows "getTime a < getTime b \<longleftrightarrow>
           year a < year b
           \<or> (year a = year b \<and> (monthNum (month a) < monthNum (month b)
                \<or> (monthNum (month a) = monthNum (month b) \<and> day a < day b)))"
proof -
  have ma: "1 \<le> monthNum (month a)" "monthNum (month a) \<le> 12"
    and mb: "1 \<le> monthNum (month b)" "monthNum (month b) \<le> 12"
    using monthNum_bounds by simp_all
  show ?thesis
    unfolding getTime_def monthIndex_def using assms ma mb by auto
qed

text \<open>
  C8. Whenever the category view is returned and the host's collation is a total
  preorder, the groups are in ascending order of their lower-cased display labels under
  that collation. No two groups have labels that are equal after lower-casing, so no
  tie between such labels is left to break.
\<close>

theorem categories_in_label_order:
  assumes "sortedCategories localeCompare R = Inr cats"
    and total: "\<forall>a b. localeCompare a b \<le> 0 \<or> localeCompare b a \<le> 0"
    and trans: "\<forall>a b c. localeCompare a b \<le> 0 \<longrightarrow> localeCompare b c \<le> 0 \<longrightarrow> localeCompare a c \<le> 0"
  shows "sorted_wrt (\<lambda>g h. localeCompare (toLowerCase (display g)) (toLowerCase (display h)) \<le> 0) cats
       \<and> distinct (map (\<lambda>g. toLowerCase (display g)) cats)"
proof -
  let ?V = "\<lambda>p :: string \<times> Expense list.
              \<lparr>display = category (hd (snd p)), items = arraySort dateCmp (snd p)\<rparr>"
  let ?entries = "objectEntries (groupsOf categoryKeyOf R)"
  have c: "cats = arraySort (displayCmp localeCompare) (map ?V ?entries)"
    using sortedCategories_Inr[OF assms(1)] by simp
  have "sorted_wrt (\<lambda>g h. displayCmp localeCompare g h \<le> 0) cats"
    unfolding c
  proof (rule sorted_arraySort)
    show "\<forall>a\<in>set (map ?V ?entries). \<forall>b\<in>set (map ?V ?entries).
            displayCmp localeCompare a b \<le> 0 \<or> displayCmp localeCompare b a \<le> 0"
      using total by (simp add: displayCmp_def)
    show "\<forall>a\<in>set (map ?V ?entries). \<forall>b\<in>set (map ?V ?entries). \<forall>c\<in>set (map ?V ?entries).
            displayCmp localeCompare a b \<le> 0 \<longrightarrow> displayCmp localeCompare b c \<le> 0
            \<longrightarrow> displayCmp localeCompare a c \<le> 0"
      using trans unfolding displayCmp_def by blast
  qed
  then have s: "sorted_wrt (\<lambda>g h. localeCompare (toLowerCase (display g)) (toLowerCase (display h)) \<le> 0) cats"
    by (simp add: displayCmp_def toLocaleLowerCase_def)
  have key: "toLowerCase (category (hd (snd p))) = fst p" if "p \<in> set (groupsOf categoryKeyOf R)" for p
  proof -
    from that have k: "fst p \<in> categoryKeyOf ` set R"
      and sp: "snd p = filter (\<lambda>x. categoryKeyOf x = fst p) R"
      using groupsOf_member[of "fst p" "snd p" categoryKeyOf R] by simp_all
    from k obtain y where "y \<in> set R" "categoryKeyOf y = fst p" by force
    then have "y \<in> set (snd p)" unfolding sp by simp
    then have "snd p \<noteq> []" by (metis empty_iff empty_set)
    then have "hd (snd p) \<in> set (snd p)" by (rule hd_in_set)
    then have "categoryKeyOf (hd (snd p)) = fst p" unfolding sp by simp
    then show ?thesis by (simp add: categoryKeyOf_def)
  qed
  have "map (\<lambda>g. toLowerCase (display g)) (map ?V ?entries) = map fst ?entries"
    unfolding map_map by (rule map_cong[OF refl]) (simp add: key set_objectEntries)
  then have e1: "mset (map (\<lambda>g. toLowerCase (display g)) (map ?V ?entries)) = mset (map fst ?entries)"
    by (rule arg_cong)
  have "mset (map (\<lambda>g. toLowerCase (display g)) cats)
      = image_mset (\<lambda>g. toLowerCase (display g)) (mset (map ?V ?entries))"
    unfolding c by (simp only: mset_map mset_arraySort)
  also have "\<dots> = mset (map (\<lambda>g. toLowerCase (display g)) (map ?V ?entries))"
    by (simp only: mset_map)
  also have "\<dots> = mset (map fst ?entries)"
    by (rule e1)
  also have "\<dots> = mset (map fst (groupsOf categoryKeyOf R))"
    by (simp only: mset_map mset_objectEntries)
  finally have "mset (map (\<lambda>g. toLowerCase (display g)) cats) = mset (firstSeen (map categoryKeyOf R))"
    by (simp only: map_fst_groupsOf)
  then have "distinct (map (\<lambda>g. toLowerCase (display g)) cats)"
    using distinct_firstSeen[of "map categoryKeyOf R"] by (metis mset_eq_imp_distinct_iff)
  with s show ?thesis by simp
qed

theorem categories_in_label_order_witness:
  "sortedCategories codeUnitCompare scenarioA =
     Inr [\<lparr>display = ''Food'', items = [lunch, coffee]\<rparr>,
          \<lparr>display = ''Transport'', items = [bus]\<rparr>]
   \<and> sorted_wrt (\<lambda>g h. codeUnitCompare (toLowerCase (display g)) (toLowerCase (display h)) \<le> 0)
        [\<lparr>display = ''Food'', items = [lunch, coffee]\<rparr>,
         \<lparr>display = ''Transport'', items = [bus]\<rparr>]
   \<and> distinct (map (\<lambda>g. toLowerCase (display g))
        [\<lparr>display = ''Food'', items = [lunch, coffee]\<rparr>,
         \<lparr>display = ''Transport'', items = [bus]\<rparr>])
   \<and> codeUnitCompare ''food'' ''transport'' \<le> 0"
proof -
  have t: "\<forall>a b. codeUnitCompare a b \<le> 0 \<or> codeUnitCompare b a \<le> 0"
    using codeUnitCompare_total by blast
  have r: "\<forall>a b c. codeUnitCompare a b \<le> 0 \<longrightarrow> codeUnitCompare b c \<le> 0 \<longrightarrow> codeUnitCompare a c \<le> 0"
    using codeUnitCompare_trans by blast
  have "codeUnitCompare ''food'' ''transport'' \<le> 0" by simp
  with categories_in_label_order[OF run_categories t r] run_categories show ?thesis
    by (intro conjI) simp_all
qed

text \<open>
  Groups that the collation does not tell apart keep the order in which
  \<open>Object.values\<close> lists them.
\<close>

lemma categories_ties_keep_object_order:
  assumes "expensesByCategory R = Inr obj"
    and "\<forall>g h. P g \<longrightarrow> P h \<longrightarrow> displayCmp localeCompare g h \<le> 0"
  shows "\<exists>cats. sortedCategories localeCompare R = Inr cats
           \<and> filter P cats = filter P (objectValues obj)"
  using assms by (simp add: sortedCategories_def filter_arraySort_stable)

lemma month_group_shape:
  assumes "sortedMonths R = Inr months" and "m \<in> set months"
  shows "label m \<in> monthKeyOf ` set R
       \<and> m = \<lparr>label = label m,
               categories = groupsOf categoryKeyOf (filter (\<lambda>e. monthKeyOf e = label m) R)\<rparr>"
proof -
  let ?V = "\<lambda>l. \<lparr>label = l, categories = groupsOf categoryKeyOf (filter (\<lambda>e. monthKeyOf e = l) R)\<rparr>"
  have "months = map ?V (arraySort labelCmp (firstSeen (map monthKeyOf R)))"
    using sortedMonths_Inr[OF assms(1)] by simp
  with assms(2) obtain l where l: "l \<in> set (arraySort labelCmp (firstSeen (map monthKeyOf R)))"
    and m: "m = ?V l" by auto
  from l have "l \<in> monthKeyOf ` set R" by (simp add: set_arraySort set_firstSeen)
  with m show ?thesis by simp
qed

lemma month_group_items:
  assumes "sortedMonths R = Inr months" and "m \<in> set months"
  shows "set (monthItems m) = {e \<in> set R. monthKeyOf e = label m}"
proof -
  from month_group_shape[OF assms]
  have m: "m = \<lparr>label = label m,
               categories = groupsOf categoryKeyOf (filter (\<lambda>e. monthKeyOf e = label m) R)\<rparr>"
    by simp
  have "mset (monthItems m) = mset (filter (\<lambda>e. monthKeyOf e = label m) R)"
    by (subst m) (rule mset_monthItems)
  then have "set (monthItems m) = set (filter (\<lambda>e. monthKeyOf e = label m) R)"
    by (rule mset_eq_setD)
  then show ?thesis by simp
qed

lemma month_group_exists:
  assumes "sortedMonths R = Inr months" and "a \<in> set R"
  shows "\<exists>m \<in> set months. label m = monthKeyOf a"
proof -
  let ?V = "\<lambda>l. \<lparr>label = l, categories = groupsOf categoryKeyOf (filter (\<lambda>e. monthKeyOf e = l) R)\<rparr>"
  have ms: "months = map ?V (arraySort labelCmp (firstSeen (map monthKeyOf R)))"
    using sortedMonths_Inr[OF assms(1)] by simp
  have "monthKeyOf a \<in> set (arraySort labelCmp (firstSeen (map monthKeyOf R)))"
    using assms(2) by (simp add: set_arraySort set_firstSeen)
  then have "?V (monthKeyOf a) \<in> set months" unfolding ms by simp
  then show ?thesis by (intro bexI[of _ "?V (monthKeyOf a)"]) simp_all
qed

lemma sorted_wrt_distinct:
  "sorted_wrt P xs \<Longrightarrow> distinct xs \<Longrightarrow> sorted_wrt (\<lambda>a b. P a b \<and> a \<noteq> b) xs"
  by (induction xs) auto

lemma labelCmp_keys:
  assumes "1000 \<le> year (date a)" "year (date a) \<le> 9999"
    and "1000 \<le> year (date b)" "year (date b) \<le> 9999"
  shows "labelCmp (monthKeyOf a) (monthKeyOf b) \<le> 0 \<longleftrightarrow>
           monthIndex (year (date b)) (month (date b)) \<le> monthIndex (year (date a)) (month (date a))"
  using assms by (simp add: labelCmp_def monthKeyOf_def labelTime_monthLabel)

lemma laterMonth_from_index:
  assumes "monthIndex (year b) (month b) \<le> monthIndex (year a) (month a)"
    and "monthLabel a \<noteq> monthLabel b"
  shows "laterMonth a b"
proof -
  from assms(2) have d: "\<not> (month a = month b \<and> year a = year b)"
    by (simp add: monthLabel_inj)
  from assms(1) have "year b < year a \<or> (year b = year a \<and> monthNum (month b) \<le> monthNum (month a))"
    by (simp add: monthIndex_le_iff)
  moreover have "monthNum (month b) \<noteq> monthNum (month a)" if "year b = year a"
    using d that monthNum_inj[of "month b" "month a"] by auto
  ultimately show ?thesis unfolding laterMonth_def by force
qed

text \<open>
  Whenever the month view is returned for records with four-digit years: every month
  group holds records, its label is the long month name, a space and the four digits of
  the year of each of its records; two input records lie in one month group exactly when
  their dates agree in month and year, whatever the day; and the month groups are in
  descending calendar order (year, then month), every record of an earlier group being
  of a later month than every record of a later group.
\<close>

theorem months_newest_first:
  assumes "sortedMonths R = Inr months"
    and "\<forall>e \<in> set R. 1000 \<le> year (date e) \<and> year (date e) \<le> 9999"
  shows "(\<forall>m \<in> set months. monthItems m \<noteq> []
            \<and> (\<forall>e \<in> set (monthItems m).
                  label m = monthName (month (date e)) @ '' '' @ digits (year (date e))
                  \<and> length (digits (year (date e))) = 4))
       \<and> (\<forall>a \<in> set R. \<forall>b \<in> set R.
            (\<exists>m \<in> set months. a \<in> set (monthItems m) \<and> b \<in> set (monthItems m))
            \<longleftrightarrow> (month (date a) = month (date b) \<and> year (date a) = year (date b)))
       \<and> sorted_wrt (\<lambda>m n. \<forall>a \<in> set (monthItems m). \<forall>b \<in> set (monthItems n).
                               laterMonth (date a) (date b)) months"
proof (intro conjI ballI)
  fix m assume m: "m \<in> set months"
  from month_group_shape[OF assms(1) m] obtain y where "y \<in> set R" "monthKeyOf y = label m"
    by force
  then have "y \<in> set (monthItems m)" by (simp add: month_group_items[OF assms(1) m])
  then show "monthItems m \<noteq> []" by (metis empty_iff empty_set)
next
  fix m e assume m: "m \<in> set months" and e: "e \<in> set (monthItems m)"
  then have "e \<in> set R" "monthKeyOf e = label m"
    by (simp_all add: month_group_items[OF assms(1) m])
  with assms(2) show "label m = monthName (month (date e)) @ '' '' @ digits (year (date e))"
    "length (digits (year (date e))) = 4"
    by (simp_all add: monthKeyOf_def monthLabel_def length_digits_four)
next
  fix a b assume a: "a \<in> set R" and b: "b \<in> set R"
  show "(\<exists>m \<in> set months. a \<in> set (monthItems m) \<and> b \<in> set (monthItems m))
        \<longleftrightarrow> (month (date a) = month (date b) \<and> year (date a) = year (date b))"
  proof
    assume "\<exists>m \<in> set months. a \<in> set (monthItems m) \<and> b \<in> set (monthItems m)"
    then obtain m where m: "m \<in> set months" and "a \<in> set (monthItems m)" "b \<in> set (monthItems m)"
      by blast
    then have "monthKeyOf a = monthKeyOf b" by (simp add: month_group_items[OF assms(1) m])
    then show "month (date a) = month (date b) \<and> year (date a) = year (date b)"
      by (simp add: monthKeyOf_def monthLabel_inj)
  next
    assume "month (date a) = month (date b) \<and> year (date a) = year (date b)"
    then have e: "monthKeyOf a = monthKeyOf b" by (simp add: monthKeyOf_def monthLabel_inj)
    from month_group_exists[OF assms(1) a] obtain m where m: "m \<in> set months"
      and l: "label m = monthKeyOf a" by blast
    have "a \<in> set (monthItems m)" "b \<in> set (monthItems m)"
      using a b e l by (simp_all add: month_group_items[OF assms(1) m])
    with m show "\<exists>m \<in> set months. a \<in> set (monthItems m) \<and> b \<in> set (monthItems m)" by blast
  qed
next
  let ?V = "\<lambda>l. \<lparr>label = l, categories = groupsOf categoryKeyOf (filter (\<lambda>e. monthKeyOf e = l) R)\<rparr>"
  let ?ls = "arraySort labelCmp (firstSeen (map monthKeyOf R))"
  let ?idx = "\<lambda>e. monthIndex (year (date e)) (month (date e))"
  have ms: "months = map ?V ?ls" using sortedMonths_Inr[OF assms(1)] by simp
  have cmp: "labelCmp (monthKeyOf a) (monthKeyOf b) \<le> 0 \<longleftrightarrow> ?idx b \<le> ?idx a"
    if "a \<in> set R" "b \<in> set R" for a b
    using that assms(2) by (intro labelCmp_keys) simp_all
  have keys: "set (firstSeen (map monthKeyOf R)) = monthKeyOf ` set R"
    by (simp add: set_firstSeen)
  have "sorted_wrt (\<lambda>a b. labelCmp a b \<le> 0) ?ls"
  proof (rule sorted_arraySort)
    show "\<forall>a\<in>set (firstSeen (map monthKeyOf R)). \<forall>b\<in>set (firstSeen (map monthKeyOf R)).
            labelCmp a b \<le> 0 \<or> labelCmp b a \<le> 0"
      unfolding keys using cmp by (auto simp: linear)
    show "\<forall>a\<in>set (firstSeen (map monthKeyOf R)). \<forall>b\<in>set (firstSeen (map monthKeyOf R)).
            \<forall>c\<in>set (firstSeen (map monthKeyOf R)).
            labelCmp a b \<le> 0 \<longrightarrow> labelCmp b c \<le> 0 \<longrightarrow> labelCmp a c \<le> 0"
      unfolding keys using cmp by (auto intro: order_trans)
  qed
  moreover have "distinct ?ls"
    using distinct_firstSeen[of "map monthKeyOf R"] mset_arraySort[of labelCmp "firstSeen (map monthKeyOf R)"]
    by (metis mset_eq_imp_distinct_iff)
  ultimately have s: "sorted_wrt (\<lambda>a b. labelCmp a b \<le> 0 \<and> a \<noteq> b) ?ls"
    by (rule sorted_wrt_distinct)
  have "sorted_wrt (\<lambda>k l. \<forall>a \<in> set (monthItems (?V k)). \<forall>b \<in> set (monthItems (?V l)).
           laterMonth (date a) (date b)) ?ls"
  proof (rule sorted_wrt_mono_rel[OF _ s])
    fix k l assume k: "k \<in> set ?ls" and l: "l \<in> set ?ls" and kl: "labelCmp k l \<le> 0 \<and> k \<noteq> l"
    have mk: "?V k \<in> set months" and ml: "?V l \<in> set months" using k l ms by simp_all
    show "\<forall>a \<in> set (monthItems (?V k)). \<forall>b \<in> set (monthItems (?V l)). laterMonth (date a) (date b)"
    proof (intro ballI)
      fix a b assume "a \<in> set (monthItems (?V k))" "b \<in> set (monthItems (?V l))"
      then have a: "a \<in> set R" "monthKeyOf a = k" and b: "b \<in> set R" "monthKeyOf b = l"
        using month_group_items[OF assms(1) mk] month_group_items[OF assms(1) ml] by simp_all
      from kl a b have "?idx b \<le> ?idx a" using cmp[of a b] by simp
      moreover from kl a b have "monthLabel (date a) \<noteq> monthLabel (date b)"
        by (simp add: monthKeyOf_def)
      ultimately show "laterMonth (date a) (date b)" by (rule laterMonth_from_index)
    qed
  qed
  then show "sorted_wrt (\<lambda>m n. \<forall>a \<in> set (monthItems m). \<forall>b \<in> set (monthItems n).
                               laterMonth (date a) (date b)) months"
    unfolding ms sorted_wrt_map .
qed


lemma sample_years:
  "\<forall>e \<in> set scenarioA. 1000 \<le> year (date e) \<and> year (date e) \<le> 9999"
  by (simp add: scenarioA_def coffee_def bus_def lunch_def)

lemma run_monthItems:
  "monthItems \<lparr>label = ''April 2024'', categories = [(''food'', [lunch])]\<rparr> = [lunch]"
  "monthItems \<lparr>label = ''March 2024'',
                categories = [(''food'', [coffee]), (''transport'', [bus])]\<rparr> = [coffee, bus]"
  by (simp_all add: run_rules)

theorem months_newest_first_witness:
  "sortedMonths scenarioA =
     Inr [\<lparr>label = ''April 2024'', categories = [(''food'', [lunch])]\<rparr>,
          \<lparr>label = ''March 2024'',
             categories = [(''food'', [coffee]), (''transport'', [bus])]\<rparr>]
   \<and> list_all (\<lambda>e. 1000 \<le> year (date e) \<and> year (date e) \<le> 9999) scenarioA
   \<and> ''April 2024'' = monthName (month (date lunch)) @ '' '' @ digits (year (date lunch))
   \<and> length (digits (year (date lunch))) = 4
   \<and> laterMonth (date lunch) (date coffee)
   \<and> laterMonth (date lunch) (date bus)"
proof -
  note t = months_newest_first[OF run_months sample_years]
  from t have "\<forall>e \<in> set (monthItems \<lparr>label = ''April 2024'', categories = [(''food'', [lunch])]\<rparr>).
      ''April 2024'' = monthName (month (date e)) @ '' '' @ digits (year (date e))
      \<and> length (digits (year (date e))) = 4"
    by simp
  then have 1: "''April 2024'' = monthName (month (date lunch)) @ '' '' @ digits (year (date lunch))
      \<and> length (digits (year (date lunch))) = 4"
    by (simp add: run_monthItems)
  from t have "sorted_wrt (\<lambda>m n. \<forall>a \<in> set (monthItems m). \<forall>b \<in> set (monthItems n).
                               laterMonth (date a) (date b))
      [\<lparr>label = ''April 2024'', categories = [(''food'', [lunch])]\<rparr>,
       \<lparr>label = ''March 2024'', categories = [(''food'', [coffee]), (''transport'', [bus])]\<rparr>]"
    by (rule conjunct2[THEN conjunct2])
  then have 2: "laterMonth (date lunch) (date coffee) \<and> laterMonth (date lunch) (date bus)"
    by (simp add: run_monthItems)
  have 3: "list_all (\<lambda>e. 1000 \<le> year (date e) \<and> year (date e) \<le> 9999) scenarioA"
    using sample_years by (simp add: list_all_iff)
  from 1 2 3 run_months show ?thesis by (intro conjI) simp_all
qed

lemma month_cells_shape:
  assumes "sortedMonths R = Inr months" and "m \<in> set months"
  shows "monthCells m
       = objectEntries (groupsOf categoryKeyOf (filter (\<lambda>e. monthKeyOf e = label m) R))"
proof -
  from month_group_shape[OF assms]
  have "categories m = groupsOf categoryKeyOf (filter (\<lambda>e. monthKeyOf e = label m) R)"
    by (metis monthGroup.select_convs(2))
  then show ?thesis by (simp add: monthCells_def)
qed

text \<open>
  C9, as the code has it. Whenever the month view is returned, the category cells of a
  month are listed as an object lists its keys: first the cells whose lower-cased
  category is an array index (a canonical decimal integer below \<open>2^32 - 1\<close>), in
  ascending numeric order, then the other cells in the order in which their category is
  first seen among the input records of that month. When no lower-cased category of the
  input is an array index, the cells are in first-seen order. The items of a cell are
  the input records of that month and category, in their input order.
\<close>

theorem month_cells_in_key_order:
  assumes "sortedMonths R = Inr months"
  shows "(\<forall>m \<in> set months.
            map fst (monthCells m)
              = keyOrder (firstSeen (map categoryKeyOf (filter (\<lambda>e. monthKeyOf e = label m) R)))
            \<and> (\<forall>c \<in> set (monthCells m).
                  snd c = filter (\<lambda>e. monthKeyOf e = label m \<and> categoryKeyOf e = fst c) R))
       \<and> ((\<forall>e \<in> set R. \<not> isIndex (categoryKeyOf e)) \<longrightarrow>
            (\<forall>m \<in> set months.
               map fst (monthCells m)
                 = firstSeen (map categoryKeyOf (filter (\<lambda>e. monthKeyOf e = label m) R))))"
proof -
  have ks: "map fst (monthCells m)
              = keyOrder (firstSeen (map categoryKeyOf (filter (\<lambda>e. monthKeyOf e = label m) R)))"
    if "m \<in> set months" for m
    unfolding month_cells_shape[OF assms that]
    using objectKeys_keyOrder[of "groupsOf categoryKeyOf (filter (\<lambda>e. monthKeyOf e = label m) R)"]
    by (simp add: objectKeys_def map_fst_groupsOf)
  have cs: "snd c = filter (\<lambda>e. monthKeyOf e = label m \<and> categoryKeyOf e = fst c) R"
    if "m \<in> set months" "c \<in> set (monthCells m)" for m c
  proof -
    from that have "c \<in> set (groupsOf categoryKeyOf (filter (\<lambda>e. monthKeyOf e = label m) R))"
      by (simp add: month_cells_shape[OF assms that(1)] set_objectEntries)
    then have "snd c = filter (\<lambda>x. categoryKeyOf x = fst c) (filter (\<lambda>e. monthKeyOf e = label m) R)"
      using groupsOf_member[of "fst c" "snd c" categoryKeyOf "filter (\<lambda>e. monthKeyOf e = label m) R"]
      by simp
    then show ?thesis by (simp add: conj_commute)
  qed
  have fs: "map fst (monthCells m)
              = firstSeen (map categoryKeyOf (filter (\<lambda>e. monthKeyOf e = label m) R))"
    if "m \<in> set months" and ni: "\<forall>e \<in> set R. \<not> isIndex (categoryKeyOf e)" for m
  proof -
    have "keyOrder (firstSeen (map categoryKeyOf (filter (\<lambda>e. monthKeyOf e = label m) R)))
        = firstSeen (map categoryKeyOf (filter (\<lambda>e. monthKeyOf e = label m) R))"
      by (rule keyOrder_no_index) (use ni in \<open>auto simp: set_firstSeen\<close>)
    with ks[OF that(1)] show ?thesis by simp
  qed
  from ks cs fs show ?thesis by blast
qed

lemma run_cells:
  "monthCells \<lparr>label = ''March 2024'', categories = [(''transport'', [bus]), (''7'', [ticket])]\<rparr>
     = [(''7'', [ticket]), (''transport'', [bus])]"
  "monthCells \<lparr>label = ''March 2024'',
               categories = [(''food'', [coffee]), (''transport'', [bus])]\<rparr>
     = [(''food'', [coffee]), (''transport'', [bus])]"
  by (simp_all add: run_rules)

lemma sample_keys:
  "categoryKeyOf coffee = ''food''" "categoryKeyOf bus = ''transport''"
  "categoryKeyOf lunch = ''food''" "categoryKeyOf ticket = ''7''"
  "monthKeyOf coffee = ''March 2024''" "monthKeyOf bus = ''March 2024''"
  "monthKeyOf lunch = ''April 2024''" "monthKeyOf ticket = ''March 2024''"
  by (simp_all add: categoryKeyOf_def monthKeyOf_def sample_fields sample_lower sample_labels)

theorem month_cells_in_key_order_witness:
  "sortedMonths [bus, ticket] =
     Inr [\<lparr>label = ''March 2024'', categories = [(''transport'', [bus]), (''7'', [ticket])]\<rparr>]
   \<and> map fst (monthCells \<lparr>label = ''March 2024'',
                            categories = [(''transport'', [bus]), (''7'', [ticket])]\<rparr>)
       = keyOrder (firstSeen (map categoryKeyOf (filter (\<lambda>e. monthKeyOf e = ''March 2024'') [bus, ticket])))
   \<and> keyOrder [''transport'', ''7''] = [''7'', ''transport'']
   \<and> sortedMonths scenarioA =
     Inr [\<lparr>label = ''April 2024'', categories = [(''food'', [lunch])]\<rparr>,
          \<lparr>label = ''March 2024'',
             categories = [(''food'', [coffee]), (''transport'', [bus])]\<rparr>]
   \<and> list_all (\<lambda>e. \<not> isIndex (categoryKeyOf e)) scenarioA
   \<and> map fst (monthCells \<lparr>label = ''March 2024'',
                            categories = [(''food'', [coffee]), (''transport'', [bus])]\<rparr>)
       = firstSeen (map categoryKeyOf (filter (\<lambda>e. monthKeyOf e = ''March 2024'') scenarioA))
   \<and> firstSeen (map categoryKeyOf (filter (\<lambda>e. monthKeyOf e = ''March 2024'') scenarioA))
       = [''food'', ''transport'']"
proof -
  have 1: "map fst (monthCells \<lparr>label = ''March 2024'',
                            categories = [(''transport'', [bus]), (''7'', [ticket])]\<rparr>)
       = keyOrder (firstSeen (map categoryKeyOf (filter (\<lambda>e. monthKeyOf e = ''March 2024'') [bus, ticket])))"
    using month_cells_in_key_order[OF run_numbered] by simp
  have 2: "keyOrder [''transport'', ''7''] = [''7'', ''transport'']"
    by (simp add: keyOrder_def sample_index)
  have ni: "\<forall>e \<in> set scenarioA. \<not> isIndex (categoryKeyOf e)"
    by (simp add: scenarioA_def sample_keys sample_index)
  then have 3: "list_all (\<lambda>e. \<not> isIndex (categoryKeyOf e)) scenarioA"
    by (simp add: list_all_iff)
  have 4: "map fst (monthCells \<lparr>label = ''March 2024'',
                            categories = [(''food'', [coffee]), (''transport'', [bus])]\<rparr>)
       = firstSeen (map categoryKeyOf (filter (\<lambda>e. monthKeyOf e = ''March 2024'') scenarioA))"
  proof -
    have "(\<forall>e \<in> set scenarioA. \<not> isIndex (categoryKeyOf e)) \<longrightarrow>
            (\<forall>m \<in> set [\<lparr>label = ''April 2024'', categories = [(''food'', [lunch])]\<rparr>,
                          \<lparr>label = ''March 2024'',
                             categories = [(''food'', [coffee]), (''transport'', [bus])]\<rparr>].
               map fst (monthCells m)
                 = firstSeen (map categoryKeyOf (filter (\<lambda>e. monthKeyOf e = label m) scenarioA)))"
      using month_cells_in_key_order[OF run_months] by (rule conjunct2)
    with ni have "\<forall>m \<in> set [\<lparr>label = ''April 2024'', categories = [(''food'', [lunch])]\<rparr>,
                          \<lparr>label = ''March 2024'',
                             categories = [(''food'', [coffee]), (''transport'', [bus])]\<rparr>].
               map fst (monthCells m)
                 = firstSeen (map categoryKeyOf (filter (\<lambda>e. monthKeyOf e = label m) scenarioA))"
      by blast
    then show ?thesis by simp
  qed
  have 5: "firstSeen (map categoryKeyOf (filter (\<lambda>e. monthKeyOf e = ''March 2024'') scenarioA))
       = [''food'', ''transport'']"
    by (simp add: scenarioA_def sample_keys)
  from 1 2 3 4 5 run_numbered run_months show ?thesis by (intro conjI)
qed

text \<open>
  C9, as the specification words it, fails: a bus fare in category \<open>Transport\<close> followed
  by a ticket in category \<open>7\<close>, both of March 2024, give the cells \<open>7\<close>, \<open>transport\<close>,
  while the first-seen order is \<open>transport\<close>, \<open>7\<close>.
\<close>

theorem month_cells_first_seen_counterexample:
  "\<not> (\<forall>R months. sortedMonths R = Inr months \<longrightarrow>
        (\<forall>m \<in> set months.
           map fst (monthCells m)
             = firstSeen (map categoryKeyOf (filter (\<lambda>e. monthKeyOf e = label m) R))))"
proof
  assume "\<forall>R months. sortedMonths R = Inr months \<longrightarrow>
        (\<forall>m \<in> set months.
           map fst (monthCells m)
             = firstSeen (map categoryKeyOf (filter (\<lambda>e. monthKeyOf e = label m) R)))"
  with run_numbered
  have "\<forall>m \<in> set [\<lparr>label = ''March 2024'', categories = [(''transport'', [bus]), (''7'', [ticket])]\<rparr>].
           map fst (monthCells m)
             = firstSeen (map categoryKeyOf (filter (\<lambda>e. monthKeyOf e = label m) [bus, ticket]))"
    by blast
  then have "map fst [(''7'', [ticket]), (''transport'', [bus])]
      = firstSeen (map categoryKeyOf (filter (\<lambda>e. monthKeyOf e = ''March 2024'') [bus, ticket]))"
    by (simp add: run_cells)
  then show False by (simp add: sample_keys)
qed


section \<open>When a render returns\<close>

text \<open>
  The views are returned exactly when no category of the records lower-cases to a name
  that \<open>Object.prototype\<close> defines; otherwise the grouping throws a \<open>TypeError\<close>.
\<close>

lemma sortedCategories_returns_iff:
  "(\<exists>cats. sortedCategories localeCompare R = Inr cats)
     \<longleftrightarrow> (\<forall>e \<in> set R. categoryKeyOf e \<notin> set protoNames)"
proof
  assume "\<exists>cats. sortedCategories localeCompare R = Inr cats"
  then show "\<forall>e \<in> set R. categoryKeyOf e \<notin> set protoNames"
    using sortedCategories_Inr by blast
next
  assume "\<forall>e \<in> set R. categoryKeyOf e \<notin> set protoNames"
  from expensesByCategory_safe[OF this] show "\<exists>cats. sortedCategories localeCompare R = Inr cats"
    by (auto simp: sortedCategories_def)
qed

lemma sortedMonths_returns_iff:
  "(\<exists>months. sortedMonths R = Inr months)
     \<longleftrightarrow> (\<forall>e \<in> set R. categoryKeyOf e \<notin> set protoNames)"
  by (simp add: sortedMonths_def expensesByMonth_def monthLoop_groups)

lemma lower_inherited_names:
  "toLowerCase ''Constructor'' = ''constructor''" "toLowerCase ''__proto__'' = ''__proto__''"
  by (simp_all add: toLowerCase_def lowerChar_def isUpper_def)

text \<open>
  C2 fails on the code. A single expense whose category is \<open>Constructor\<close> makes both
  groupings throw a \<open>TypeError\<close>: the read of the key \<open>constructor\<close> finds the function
  that \<open>Object.prototype\<close> holds, no group is created, and the push fails. No view is
  returned, so the record is in no group and in no cell.
\<close>

theorem views_lose_record_named_constructor:
  "sortedCategories localeCompare [coffee\<lparr>category := ''Constructor''\<rparr>] = Inl TypeError
   \<and> sortedMonths [coffee\<lparr>category := ''Constructor''\<rparr>] = Inl TypeError"
  by (simp add: sortedCategories_def expensesByCategory_def categoryStep_def
        sortedMonths_def expensesByMonth_def monthStep_def cellStep_def Let_def
        getProp_def protoNames_def toLocaleLowerCase_def lower_inherited_names)

text \<open>
  C4 fails on the code. Two expenses of the one category \<open>__proto__\<close> are not put in a
  group: the category grouping throws a \<open>TypeError\<close> at the first of them.
\<close>

theorem category_grouping_throws_on_proto:
  "sortedCategories localeCompare
     [coffee\<lparr>category := ''__proto__''\<rparr>, bus\<lparr>category := ''__proto__''\<rparr>] = Inl TypeError"
  by (simp add: sortedCategories_def expensesByCategory_def categoryStep_def Let_def
        getProp_def protoNames_def lower_inherited_names)

text \<open>
  C5 fails on the code. Two expenses of March 2024 of which the second has the category
  \<open>CONSTRUCTOR\<close> are bucketed in no month: the month grouping throws a \<open>TypeError\<close>.
\<close>

theorem month_grouping_throws_on_constructor:
  "sortedMonths [coffee, bus\<lparr>category := ''CONSTRUCTOR''\<rparr>] = Inl TypeError"
proof -
  have l: "toLowerCase ''CONSTRUCTOR'' = ''constructor''" "toLowerCase ''Food'' = ''food''"
    by (simp_all add: toLowerCase_def lowerChar_def isUpper_def)
  show ?thesis
    by (simp add: sortedMonths_def expensesByMonth_def monthStep_def cellStep_def Let_def
          getProp_def protoNames_def toLocaleLowerCase_def l sample_fields sample_labels
          map_of_setProp)
qed

end
